theory Spec2Isabelle
  imports Complex_Main "HOL-Library.AList"
begin

section \<open>Data model of the room/session coordinator (src/index.js)\<close>

text \<open>
  Connection identities and room codes are strings. A presence record is the object stored
  in \<^verbatim>\<open>users[socket.id]\<close>; its field \<^verbatim>\<open>id\<close> is called \<open>user_id\<close> here, since
  \<open>id\<close> is the identity function of HOL. \<^verbatim>\<open>ping\<close> is a difference of two
  \<^verbatim>\<open>Date.now()\<close> readings (an integer number of milliseconds); \<^verbatim>\<open>currentTime\<close>
  is a JavaScript number that the server only stores and relays.
\<close>

type_synonym sid = string
type_synonym room = string

record presence =
  user_id :: sid
  name :: string
  ping :: int
  currentlyWatching :: string
  currentTime :: real

text \<open>
  The closure of the reply callback handed to \<^verbatim>\<open>socket.volatile.emit('ping', ...)\<close>:
  it captures the socket, \<^verbatim>\<open>start\<close> and \<^verbatim>\<open>currRoom\<close> of the tick that created it.
\<close>

record probe =
  probe_socket :: sid
  probe_start :: int
  probe_room :: room

text \<open>
  The server state. \<open>users\<close> is the object \<^verbatim>\<open>users\<close> (an association list in insertion
  order, because \<^verbatim>\<open>Object.values(users)\<close> is read); \<open>pingIntervals\<close> the object
  \<^verbatim>\<open>pingIntervals\<close>. The two maps of the in-memory socket.io adapter are part of the
  state: \<open>adapter_sids\<close> gives \<^verbatim>\<open>socket.rooms\<close> (a set in insertion order, written as a
  list) and \<open>adapter_rooms\<close> is \<^verbatim>\<open>io.sockets.adapter.rooms\<close> (room to the set of its
  members, in insertion order). \<open>acks\<close> holds the reply callbacks that wait for an answer.
\<close>

record state =
  users :: "(sid \<times> presence) list"
  pingIntervals :: "sid \<rightharpoonup> unit"
  adapter_sids :: "sid \<rightharpoonup> room list"
  adapter_rooms :: "room \<rightharpoonup> sid list"
  acks :: "probe list"

definition init :: state where
  "init = \<lparr>users = [], pingIntervals = Map.empty, adapter_sids = Map.empty,
           adapter_rooms = Map.empty, acks = []\<rparr>"

datatype error = TypeError

text \<open>What a handler hands to the callback of its event.\<close>

datatype reply =
    ErrorOnly "string option"
  | ErrorUsername "string option" string
  | ErrorRoomID "string option" "room option"
  | RoomValue "room option"

datatype message =
    UserList "presence option list"
  | Play
  | Pause
  | Sync real

text \<open>
  What the server sends: \<open>Emit r ms m\<close> is \<^verbatim>\<open>io.to(r).emit(m)\<close>, delivered to the
  members \<open>ms\<close> that room \<open>r\<close> has at that moment; \<open>PingRequest a\<close> is the latency probe
  sent to connection \<open>a\<close>; \<open>Callback a v\<close> is the completion callback of \<open>a\<close>'s event
  called with \<open>v\<close>.
\<close>

datatype sent =
    Emit room "sid list" message
  | PingRequest sid
  | Callback sid reply

section \<open>The transport: rooms of the socket.io adapter\<close>

text \<open>
  \<^verbatim>\<open>socket.rooms\<close>: the rooms of a connection in the order they were joined, the first
  being the private room named by the connection id, which the transport joins on connect.
\<close>

definition socket_rooms :: "state \<Rightarrow> sid \<Rightarrow> room list" where
  "socket_rooms s a = (case adapter_sids s a of None \<Rightarrow> [] | Some rs \<Rightarrow> rs)"

text \<open>
  The members of a room, in the order they joined; a room the adapter does not have has none.
\<close>

definition members :: "state \<Rightarrow> room \<Rightarrow> sid list" where
  "members s r = (case adapter_rooms s r of None \<Rightarrow> [] | Some ms \<Rightarrow> ms)"

text \<open>Adding to a JavaScript \<^verbatim>\<open>Set\<close>: a new element goes last, a present one stays.\<close>

definition set_add :: "'a list \<Rightarrow> 'a \<Rightarrow> 'a list" where
  "set_add xs x = (if x \<in> set xs then xs else xs @ [x])"

text \<open>\<^verbatim>\<open>socket.join(r)\<close>: the adapter's \<^verbatim>\<open>addAll\<close> for one room.\<close>

definition socket_join :: "state \<Rightarrow> sid \<Rightarrow> room \<Rightarrow> state" where
  "socket_join s a r =
     s\<lparr>adapter_sids := (adapter_sids s)(a \<mapsto> set_add (socket_rooms s a) r),
       adapter_rooms := (adapter_rooms s)(r \<mapsto> set_add (members s r) a)\<rparr>"

text \<open>The adapter's \<^verbatim>\<open>_del\<close>: remove a member; a room left without members is deleted.\<close>

definition room_del :: "(room \<rightharpoonup> sid list) \<Rightarrow> room \<Rightarrow> sid \<Rightarrow> (room \<rightharpoonup> sid list)" where
  "room_del rooms r a =
     (case rooms r of
        None \<Rightarrow> rooms
      | Some ms \<Rightarrow> (if removeAll a ms = [] then rooms(r := None)
                   else rooms(r \<mapsto> removeAll a ms)))"

text \<open>\<^verbatim>\<open>socket.leave(r)\<close>: the adapter's \<^verbatim>\<open>del\<close>.\<close>

definition socket_leave :: "state \<Rightarrow> sid \<Rightarrow> room \<Rightarrow> state" where
  "socket_leave s a r =
     s\<lparr>adapter_sids := (case adapter_sids s a of
                           None \<Rightarrow> adapter_sids s
                         | Some rs \<Rightarrow> (adapter_sids s)(a \<mapsto> removeAll r rs)),
       adapter_rooms := room_del (adapter_rooms s) r a\<rparr>"

text \<open>
  What the transport does when a connection closes, between the \<^verbatim>\<open>disconnecting\<close> and
  the \<^verbatim>\<open>disconnect\<close> event: the adapter's \<^verbatim>\<open>delAll\<close> takes the connection out of
  every room it is still in, its private room included.
\<close>

definition leaveAll :: "state \<Rightarrow> sid \<Rightarrow> state" where
  "leaveAll s a =
     s\<lparr>adapter_sids := (adapter_sids s)(a := None),
       adapter_rooms := fold (\<lambda>r rooms. room_del rooms r a) (socket_rooms s a) (adapter_rooms s)\<rparr>"

section \<open>Functions of index.js\<close>

definition defaultUsernamePrefixes :: "string list" where
  "defaultUsernamePrefixes =
     [''Awesome'', ''Cool'', ''Great'', ''Super'', ''Interesting'', ''Funny'', ''Curious'',
      ''Fantastic'', ''Wholesome'', ''Silly'', ''Lame'', ''Smart'', ''Smartest'', ''Pretty'']"

definition defaultUsernameSuffixes :: "string list" where
  "defaultUsernameSuffixes =
     [''Giraffe'', ''Panda'', ''Lion'', ''Tiger'', ''Bear'', ''Monkey'', ''Elephant'',
      ''Gorilla'', ''Hippo'', ''Whale'', ''Shark'', ''Dolphin'', ''Penguin'', ''Pig'', ''Cow'',
      ''Chicken'', ''Dog'', ''Cat'', ''Horse'', ''Puppy'', ''Kitten'']"

text \<open>
  \<^verbatim>\<open>Array.from(socket.rooms)[1]\<close>: the second room of the connection, \<open>None\<close> for
  \<^verbatim>\<open>undefined\<close>.
\<close>

definition getCurrentRoom :: "state \<Rightarrow> sid \<Rightarrow> room option" where
  "getCurrentRoom s a = (case socket_rooms s a of _ # r # _ \<Rightarrow> Some r | _ \<Rightarrow> None)"

text \<open>
  \<^verbatim>\<open>if (currRoom) { ... } else { ... }\<close>: \<^verbatim>\<open>undefined\<close> and the empty string are falsy.
\<close>

definition ifRoom :: "room option \<Rightarrow> (room \<Rightarrow> 'a) \<Rightarrow> 'a \<Rightarrow> 'a" where
  "ifRoom currRoom f g = (case currRoom of None \<Rightarrow> g | Some r \<Rightarrow> if r = [] then g else f r)"

text \<open>\<^verbatim>\<open>io.to(room).emit(...)\<close>: delivered to the members the room has now.\<close>

definition emitTo :: "state \<Rightarrow> room \<Rightarrow> message \<Rightarrow> sent list" where
  "emitTo s r m = [Emit r (members s r) m]"

text \<open>
  \<^verbatim>\<open>emitUserList(room)\<close>: nothing when the adapter has no such room; otherwise the
  presence records of the members (\<open>None\<close> for a member without a record, which
  JavaScript pushes as \<^verbatim>\<open>undefined\<close>), sent to the room.
\<close>

definition emitUserList :: "state \<Rightarrow> room \<Rightarrow> sent list" where
  "emitUserList s r =
     (case adapter_rooms s r of
        None \<Rightarrow> []
      | Some usersInRoom \<Rightarrow> emitTo s r (UserList (map (map_of (users s)) usersInRoom)))"

text \<open>
  Reading an array: \<^verbatim>\<open>xs[i]\<close> out of range is \<^verbatim>\<open>undefined\<close>, which the template
  literal of \<^verbatim>\<open>getRandomUsername\<close> prints as the word undefined.
\<close>

definition pick :: "string list \<Rightarrow> nat \<Rightarrow> string" where
  "pick xs i = (if i < length xs then xs ! i else ''undefined'')"

text \<open>
  \<^verbatim>\<open>getRandomUsername()\<close>. The random source \<open>rnd\<close> gives, for the \<open>k\<close>-th round of the
  loop, the two values of \<^verbatim>\<open>Math.floor(Math.random() * length)\<close>. The do-while loop
  runs until the name is not among the names of the records; a loop that never ends has the
  value \<open>None\<close>.
\<close>

partial_function (option) username_loop ::
  "string list \<Rightarrow> (nat \<Rightarrow> nat \<times> nat) \<Rightarrow> nat \<Rightarrow> string option" where
  "username_loop names rnd k =
     (let prefix = pick defaultUsernamePrefixes (fst (rnd k));
          suffix = pick defaultUsernameSuffixes (snd (rnd k));
          username = prefix @ '' '' @ suffix
      in if username \<in> set names then username_loop names rnd (Suc k) else Some username)"

declare username_loop.simps [code]

definition getRandomUsername :: "(sid \<times> presence) list \<Rightarrow> (nat \<Rightarrow> nat \<times> nat) \<Rightarrow> string option" where
  "getRandomUsername us rnd = username_loop (map (\<lambda>user. name (snd user)) us) rnd 0"

text \<open>
  \<^verbatim>\<open>String.prototype.toUpperCase\<close> on ASCII text: each lowercase letter becomes the
  uppercase letter at the same place of the alphabet, every other character stays.
\<close>

definition lowerCaseLetters :: string where
  "lowerCaseLetters = ''abcdefghijklmnopqrstuvwxyz''"

definition upperCaseLetters :: string where
  "upperCaseLetters = ''ABCDEFGHIJKLMNOPQRSTUVWXYZ''"

definition toUpperCase_char :: "char \<Rightarrow> char" where
  "toUpperCase_char c =
     (case map_of (zip lowerCaseLetters upperCaseLetters) c of None \<Rightarrow> c | Some C \<Rightarrow> C)"

definition toUpperCase :: "string \<Rightarrow> string" where
  "toUpperCase str = map toUpperCase_char str"

section \<open>The event handlers\<close>

text \<open>
  The body of \<^verbatim>\<open>io.on('connection', ...)\<close> that runs at once: the presence record and
  the interval timer. It returns nothing while the name loop runs.
\<close>

definition connection :: "state \<Rightarrow> sid \<Rightarrow> (nat \<Rightarrow> nat \<times> nat) \<Rightarrow> state option" where
  "connection s a rnd =
     (case getRandomUsername (users s) rnd of
        None \<Rightarrow> None
      | Some n \<Rightarrow>
          Some (s\<lparr>users := AList.update a
                     \<lparr>user_id = a, name = n, ping = 0, currentlyWatching = [], currentTime = 0\<rparr>
                     (users s),
                  pingIntervals := (pingIntervals s)(a \<mapsto> ())\<rparr>))"

definition disconnecting :: "state \<Rightarrow> sid \<Rightarrow> state \<times> sent list" where
  "disconnecting s a =
     ifRoom (getCurrentRoom s a)
       (\<lambda>currRoom. let s1 = socket_leave s a currRoom in (s1, emitUserList s1 currRoom))
       (s, [])"

definition disconnect :: "state \<Rightarrow> sid \<Rightarrow> state" where
  "disconnect s a =
     (let s1 = s\<lparr>users := AList.delete a (users s)\<rparr>
      in if pingIntervals s1 a \<noteq> None then s1\<lparr>pingIntervals := (pingIntervals s1)(a := None)\<rparr>
         else s1)"

text \<open>
  \<^verbatim>\<open>users[socket.id].name = name\<close> throws a TypeError when the record is missing.
\<close>

definition changeUsername :: "state \<Rightarrow> sid \<Rightarrow> string \<Rightarrow> error + state \<times> sent list" where
  "changeUsername s a n =
     (case map_of (users s) a of
        None \<Rightarrow> Inl TypeError
      | Some u \<Rightarrow>
          (let s1 = s\<lparr>users := AList.update a (u\<lparr>name := n\<rparr>) (users s)\<rparr>
           in Inr (s1, ifRoom (getCurrentRoom s1 a) (\<lambda>currRoom. emitUserList s1 currRoom) []
                       @ [Callback a (ErrorOnly None)])))"

definition getUsername :: "state \<Rightarrow> sid \<Rightarrow> error + state \<times> sent list" where
  "getUsername s a =
     (case map_of (users s) a of
        None \<Rightarrow> Inl TypeError
      | Some u \<Rightarrow> Inr (s, [Callback a (ErrorUsername None (name u))]))"

text \<open>
  \<^verbatim>\<open>create-room\<close>; \<open>uid\<close> is what the call \<^verbatim>\<open>getUID()\<close> of the short-unique-id
  generator returns.
\<close>

definition createRoom :: "state \<Rightarrow> sid \<Rightarrow> string \<Rightarrow> state \<times> sent list" where
  "createRoom s a uid =
     (let (s1, out1) = ifRoom (getCurrentRoom s a)
                         (\<lambda>currRoom. let s1 = socket_leave s a currRoom
                                     in (s1, emitUserList s1 currRoom))
                         (s, []);
          newRoomID = toUpperCase uid;
          s2 = socket_join s1 a newRoomID
      in (s2, out1 @ emitUserList s2 newRoomID @ [Callback a (ErrorRoomID None (Some newRoomID))]))"

definition joinRoom :: "state \<Rightarrow> sid \<Rightarrow> room \<Rightarrow> state \<times> sent list" where
  "joinRoom s a r =
     (if adapter_rooms s r \<noteq> None then
        (let (s1, out1) = ifRoom (getCurrentRoom s a)
                            (\<lambda>currRoom. let s1 = socket_leave s a currRoom
                                        in (s1, emitUserList s1 currRoom))
                            (s, []);
             s2 = socket_join s1 a r
         in (s2, out1 @ emitUserList s2 r @ [Callback a (ErrorRoomID None (Some r))]))
      else (s, [Callback a (ErrorRoomID (Some ''Room does not exist'') None)]))"

definition leaveRoom :: "state \<Rightarrow> sid \<Rightarrow> state \<times> sent list" where
  "leaveRoom s a =
     ifRoom (getCurrentRoom s a)
       (\<lambda>currRoom. let s1 = socket_leave s a currRoom
                   in (s1, emitUserList s1 currRoom @ [Callback a (ErrorOnly None)]))
       (s, [Callback a (ErrorOnly (Some ''No room to leave''))])"

definition getCurrentRoomEvent :: "state \<Rightarrow> sid \<Rightarrow> state \<times> sent list" where
  "getCurrentRoomEvent s a = (s, [Callback a (RoomValue (getCurrentRoom s a))])"

definition play :: "state \<Rightarrow> sid \<Rightarrow> state \<times> sent list" where
  "play s a = (s, ifRoom (getCurrentRoom s a) (\<lambda>currRoom. emitTo s currRoom Play) [])"

definition pause :: "state \<Rightarrow> sid \<Rightarrow> state \<times> sent list" where
  "pause s a = (s, ifRoom (getCurrentRoom s a) (\<lambda>currRoom. emitTo s currRoom Pause) [])"

definition sync :: "state \<Rightarrow> sid \<Rightarrow> real \<Rightarrow> state \<times> sent list" where
  "sync s a time = (s, ifRoom (getCurrentRoom s a) (\<lambda>currRoom. emitTo s currRoom (Sync time)) [])"

text \<open>
  \<^verbatim>\<open>currentlyWatching\<close>; the media id arrives as a string, for which
  \<^verbatim>\<open>String(movieId)\<close> is the string itself.
\<close>

definition currentlyWatchingEvent ::
  "state \<Rightarrow> sid \<Rightarrow> string \<Rightarrow> real \<Rightarrow> error + state \<times> sent list" where
  "currentlyWatchingEvent s a movieId time =
     ifRoom (getCurrentRoom s a)
       (\<lambda>currRoom. case map_of (users s) a of
                     None \<Rightarrow> Inl TypeError
                   | Some u \<Rightarrow>
                       Inr (s\<lparr>users := AList.update a
                                (u\<lparr>currentlyWatching := movieId, currentTime := time\<rparr>) (users s)\<rparr>,
                            []))
       (Inr (s, []))"

text \<open>
  One run of the interval callback at time \<open>now\<close>: without a current room nothing happens;
  otherwise the probe is sent and its reply callback, holding \<open>start\<close> and \<open>currRoom\<close>,
  waits in \<open>acks\<close>.
\<close>

definition tick :: "state \<Rightarrow> sid \<Rightarrow> int \<Rightarrow> state \<times> sent list" where
  "tick s a now =
     ifRoom (getCurrentRoom s a)
       (\<lambda>currRoom. (s\<lparr>acks := acks s @ [\<lparr>probe_socket = a, probe_start = now,
                                          probe_room = currRoom\<rparr>]\<rparr>,
                    [PingRequest a]))
       (s, [])"

text \<open>The reply callback of a probe, run at time \<open>fin\<close> (its \<^verbatim>\<open>end\<close>).\<close>

definition pingReply :: "state \<Rightarrow> probe \<Rightarrow> int \<Rightarrow> error + state \<times> sent list" where
  "pingReply s p fin =
     (case map_of (users s) (probe_socket p) of
        None \<Rightarrow> Inl TypeError
      | Some u \<Rightarrow>
          (let s1 = s\<lparr>users := AList.update (probe_socket p)
                                  (u\<lparr>ping := fin - probe_start p\<rparr>) (users s)\<rparr>
           in Inr (s1, emitUserList s1 (probe_room p))))"

section \<open>The server as a transition system\<close>

datatype event =
    Connection sid "nat \<Rightarrow> nat \<times> nat"
  | Disconnect sid
  | ChangeUsername sid string
  | GetUsername sid
  | CreateRoom sid string
  | JoinRoom sid room
  | LeaveRoom sid
  | GetCurrentRoom sid
  | PlayEvent sid
  | PauseEvent sid
  | SyncEvent sid real
  | CurrentlyWatching sid string real
  | Tick sid int
  | PingReply nat int

text \<open>
  What the environment can do in a state. A new connection has an identity of 20
  characters (socket.io's generator) that no live connection has; the events of a
  connection arrive only while the transport has it connected; \<^verbatim>\<open>getUID()\<close> returns 10
  characters (\<^verbatim>\<open>new ShortUniqueId({ length: 10 })\<close>); an interval callback runs only
  while its timer is registered; a reply goes to a callback that waits.
\<close>

fun admissible :: "state \<Rightarrow> event \<Rightarrow> bool" where
  "admissible s (Connection a rnd) =
     (length a = 20 \<and> adapter_sids s a = None \<and> map_of (users s) a = None)"
| "admissible s (Disconnect a) = (adapter_sids s a \<noteq> None)"
| "admissible s (ChangeUsername a n) = (adapter_sids s a \<noteq> None)"
| "admissible s (GetUsername a) = (adapter_sids s a \<noteq> None)"
| "admissible s (CreateRoom a uid) = (adapter_sids s a \<noteq> None \<and> length uid = 10)"
| "admissible s (JoinRoom a r) = (adapter_sids s a \<noteq> None)"
| "admissible s (LeaveRoom a) = (adapter_sids s a \<noteq> None)"
| "admissible s (GetCurrentRoom a) = (adapter_sids s a \<noteq> None)"
| "admissible s (PlayEvent a) = (adapter_sids s a \<noteq> None)"
| "admissible s (PauseEvent a) = (adapter_sids s a \<noteq> None)"
| "admissible s (SyncEvent a t) = (adapter_sids s a \<noteq> None)"
| "admissible s (CurrentlyWatching a m t) = (adapter_sids s a \<noteq> None)"
| "admissible s (Tick a now) = (pingIntervals s a \<noteq> None)"
| "admissible s (PingReply n fin) = (n < length (acks s))"

text \<open>
  One event: \<open>None\<close> when the handler never returns, \<open>Inl\<close> when it throws, otherwise the
  new state and what was sent. The transport joins a new connection to its private room
  before the connection handler runs, and empties the rooms of a closing connection between
  its two disconnect events.
\<close>

fun step :: "state \<Rightarrow> event \<Rightarrow> (error + state \<times> sent list) option" where
  "step s (Connection a rnd) =
     (case connection (socket_join s a a) a rnd of None \<Rightarrow> None | Some s1 \<Rightarrow> Some (Inr (s1, [])))"
| "step s (Disconnect a) =
     (let (s1, out) = disconnecting s a in Some (Inr (disconnect (leaveAll s1 a) a, out)))"
| "step s (ChangeUsername a n) = Some (changeUsername s a n)"
| "step s (GetUsername a) = Some (getUsername s a)"
| "step s (CreateRoom a uid) = Some (Inr (createRoom s a uid))"
| "step s (JoinRoom a r) = Some (Inr (joinRoom s a r))"
| "step s (LeaveRoom a) = Some (Inr (leaveRoom s a))"
| "step s (GetCurrentRoom a) = Some (Inr (getCurrentRoomEvent s a))"
| "step s (PlayEvent a) = Some (Inr (play s a))"
| "step s (PauseEvent a) = Some (Inr (pause s a))"
| "step s (SyncEvent a t) = Some (Inr (sync s a t))"
| "step s (CurrentlyWatching a m t) = Some (currentlyWatchingEvent s a m t)"
| "step s (Tick a now) = Some (Inr (tick s a now))"
| "step s (PingReply n fin) =
     (if n < length (acks s)
      then Some (pingReply (s\<lparr>acks := take n (acks s) @ drop (Suc n) (acks s)\<rparr>) (acks s ! n) fin)
      else Some (Inr (s, [])))"

text \<open>
  Running a list of events from a state: \<open>None\<close> as soon as an event is not admissible or
  its handler throws or never returns (an uncaught exception ends the process).
\<close>

fun exec :: "state \<Rightarrow> event list \<Rightarrow> state option" where
  "exec s [] = Some s"
| "exec s (e # es) =
     (if admissible s e
      then (case step s e of Some (Inr (s1, out)) \<Rightarrow> exec s1 es | _ \<Rightarrow> None)
      else None)"

definition reachable :: "state \<Rightarrow> bool" where
  "reachable s = (\<exists>es. exec init es = Some s)"

section \<open>Invariants of the reachable states\<close>

text \<open>
  The rooms of a connection are its private room, followed by at most one further room
  with a non-empty code.
\<close>

definition shape :: "state \<Rightarrow> bool" where
  "shape s = (\<forall>a. socket_rooms s a = [] \<or> socket_rooms s a = [a] \<or>
                  (\<exists>c. c \<noteq> [] \<and> c \<noteq> a \<and> socket_rooms s a = [a, c]))"

definition live_ok :: "state \<Rightarrow> bool" where
  "live_ok s = (\<forall>a. adapter_sids s a \<noteq> None \<longrightarrow> length a = 20 \<and> socket_rooms s a \<noteq> [])"

definition rooms_ok :: "state \<Rightarrow> bool" where
  "rooms_ok s = (\<forall>r. adapter_rooms s r \<noteq> Some [] \<and> distinct (members s r))"

definition linked :: "state \<Rightarrow> bool" where
  "linked s = (\<forall>a r. r \<in> set (socket_rooms s a) \<longleftrightarrow> a \<in> set (members s r))"

definition registry_ok :: "state \<Rightarrow> bool" where
  "registry_ok s = (\<forall>a. (map_of (users s) a = None \<longleftrightarrow> adapter_sids s a = None) \<and>
                        (pingIntervals s a = None \<longleftrightarrow> adapter_sids s a = None))"

definition invariant :: "state \<Rightarrow> bool" where
  "invariant s = (shape s \<and> live_ok s \<and> rooms_ok s \<and> linked s \<and> registry_ok s)"

section \<open>Scenarios\<close>

text \<open>
  Two connections, a random source whose \<open>k\<close>-th round draws the indices
  \<open>k mod 14\<close> and \<open>k mod 21\<close>, and the state after a list of events from the start.
\<close>

definition alice :: sid where
  "alice = ''alice-socket-id-0001''"

definition bob :: sid where
  "bob = ''bob-socket-id-000002''"

definition draws :: "nat \<Rightarrow> nat \<times> nat" where
  "draws k = (k mod 14, k mod 21)"

definition run :: "event list \<Rightarrow> state" where
  "run es = the (exec init es)"

text \<open>Alice creates a room, Bob joins it with the code she got.\<close>

definition party :: state where
  "party = run [Connection alice draws, CreateRoom alice ''abcdefghij'',
                Connection bob draws, JoinRoom bob ''ABCDEFGHIJ'']"

text \<open>Alice has created a room; Bob is connected and in no room.\<close>

definition lobby :: state where
  "lobby = run [Connection alice draws, CreateRoom alice ''abcdefghij'', Connection bob draws]"

text \<open>Alice alone, connected and in no room.\<close>

definition alone :: state where
  "alone = run [Connection alice draws]"

text \<open>
  Bob is probed while in Alice's room, then leaves it and creates a room of his own; the
  reply to the probe is still waiting.
\<close>

definition moved :: state where
  "moved = run [Connection alice draws, CreateRoom alice ''abcdefghij'', Connection bob draws,
                JoinRoom bob ''ABCDEFGHIJ'', Tick bob 1000, LeaveRoom bob,
                CreateRoom bob ''klmnopqrst'']"

text \<open>Alice is probed in her room and disconnects before the reply.\<close>

definition gone :: state where
  "gone = run [Connection alice draws, CreateRoom alice ''abcdefghij'', Tick alice 1000,
               Disconnect alice]"

text \<open>
  A full house: 294 connections, the \<open>i\<close>-th with an identity made from \<open>i\<close> and a
  random source that draws the \<open>i\<close>-th pair of indices in every round; and Carol, who
  connects after them.
\<close>

definition crowd_sid :: "nat \<Rightarrow> sid" where
  "crowd_sid i =
     ''connection-number-'' @ [upperCaseLetters ! (i div 21), upperCaseLetters ! (i mod 21)]"

definition crowd_rnd :: "nat \<Rightarrow> nat \<Rightarrow> nat \<times> nat" where
  "crowd_rnd i k = (i div 21, i mod 21)"

definition crowd_events :: "nat \<Rightarrow> event list" where
  "crowd_events n = map (\<lambda>i. Connection (crowd_sid i) (crowd_rnd i)) [0..<n]"

definition crowded :: state where
  "crowded = run (crowd_events 294)"

definition carol :: sid where
  "carol = ''carol-socket-id-0003''"

text \<open>Bob has joined the private room of Alice, using her connection identity as the code.\<close>

definition guest :: state where
  "guest = run [Connection alice draws, Connection bob draws, JoinRoom bob alice]"

section \<open>Vocabulary of the statements\<close>

text \<open>
  The presence broadcast for room \<open>r\<close> in state \<open>s\<close>: the records of the members of
  \<open>r\<close>, in their order, delivered to these members.
\<close>

definition presence_broadcast :: "state \<Rightarrow> room \<Rightarrow> sent" where
  "presence_broadcast s r = Emit r (members s r) (UserList (map (map_of (users s)) (members s r)))"

text \<open>
  What the room that connection \<open>a\<close> leaves is sent: the presence broadcast to the members
  that remain, and nothing when \<open>a\<close> was in no room or was the last member.
\<close>

definition vacated_broadcast :: "state \<Rightarrow> sid \<Rightarrow> sent list" where
  "vacated_broadcast s a =
     (case getCurrentRoom s a of
        None \<Rightarrow> []
      | Some c \<Rightarrow> (if removeAll a (members s c) = [] then []
                   else [Emit c (removeAll a (members s c))
                           (UserList (map (map_of (users s)) (removeAll a (members s c))))]))"

text \<open>The results that the callbacks of join-room and leave-room can be handed.\<close>

definition join_succeeds :: "state \<Rightarrow> sid \<Rightarrow> room \<Rightarrow> bool" where
  "join_succeeds s a r = (Callback a (ErrorRoomID None (Some r)) \<in> set (snd (joinRoom s a r)))"

definition leave_succeeds :: "state \<Rightarrow> sid \<Rightarrow> bool" where
  "leave_succeeds s a = (Callback a (ErrorOnly None) \<in> set (snd (leaveRoom s a)))"

definition leave_fails :: "state \<Rightarrow> sid \<Rightarrow> bool" where
  "leave_fails s a = (Callback a (ErrorOnly (Some ''No room to leave'')) \<in> set (snd (leaveRoom s a)))"

text \<open>The rooms that a handler's output sends a presence list to, in the order sent.\<close>

fun user_list_room :: "sent \<Rightarrow> room option" where
  "user_list_room (Emit r ms (UserList us)) = Some r"
| "user_list_room x = None"

definition broadcast_rooms :: "sent list \<Rightarrow> room list" where
  "broadcast_rooms out = List.map_filter user_list_room out"

text \<open>
  The name that the \<open>k\<close>-th round of the loop of \<^verbatim>\<open>getRandomUsername\<close> makes.
\<close>

definition username_at :: "(nat \<Rightarrow> nat \<times> nat) \<Rightarrow> nat \<Rightarrow> string" where
  "username_at rnd k =
     pick defaultUsernamePrefixes (fst (rnd k)) @ '' '' @ pick defaultUsernameSuffixes (snd (rnd k))"

text \<open>The name that the \<open>i\<close>-th connection of the full house is given.\<close>

definition crowd_name :: "nat \<Rightarrow> string" where
  "crowd_name i = username_at (crowd_rnd i) 0"

text \<open>
  The membership events and the connection they come from; how many presence broadcasts an
  output holds for a room; a room is affected by a step when the step changes the set of its
  members and leaves it with members. \<open>broadcast_once s e r\<close> says that the event
  \<open>e\<close> in state \<open>s\<close>, if it affects room \<open>r\<close>, sends \<open>r\<close> exactly one presence
  broadcast.
\<close>

fun membership_event :: "event \<Rightarrow> sid option" where
  "membership_event (CreateRoom a uid) = Some a"
| "membership_event (JoinRoom a r) = Some a"
| "membership_event (LeaveRoom a) = Some a"
| "membership_event (Disconnect a) = Some a"
| "membership_event e = None"

definition broadcast_count :: "room \<Rightarrow> sent list \<Rightarrow> nat" where
  "broadcast_count r out = count_list (broadcast_rooms out) r"

definition affected :: "state \<Rightarrow> state \<Rightarrow> room \<Rightarrow> bool" where
  "affected s t r = (set (members t r) \<noteq> set (members s r) \<and> members t r \<noteq> [])"

definition broadcast_once :: "state \<Rightarrow> event \<Rightarrow> room \<Rightarrow> bool" where
  "broadcast_once s e r =
     (case step s e of
        Some (Inr (t, out)) \<Rightarrow> affected s t r \<longrightarrow> broadcast_count r out = 1
      | _ \<Rightarrow> True)"

section \<open>The transport's rooms: what join and leave do to the two views\<close>

lemma socket_rooms_join:
  "socket_rooms (socket_join s a r) b = (if b = a then set_add (socket_rooms s a) r else socket_rooms s b)"
  by (simp add: socket_join_def socket_rooms_def)

lemma members_join:
  "members (socket_join s a r) q = (if q = r then set_add (members s r) a else members s q)"
  by (simp add: socket_join_def members_def)

lemma socket_rooms_leave:
  "socket_rooms (socket_leave s a r) b = (if b = a then removeAll r (socket_rooms s a) else socket_rooms s b)"
  by (simp add: socket_leave_def socket_rooms_def split: option.splits)

lemma members_room_del:
  "(case room_del rooms r a q of None \<Rightarrow> [] | Some ms \<Rightarrow> ms) =
     (if q = r then removeAll a (case rooms r of None \<Rightarrow> [] | Some ms \<Rightarrow> ms)
      else (case rooms q of None \<Rightarrow> [] | Some ms \<Rightarrow> ms))"
  by (simp add: room_del_def split: option.splits)

lemma members_leave:
  "members (socket_leave s a r) q = (if q = r then removeAll a (members s r) else members s q)"
  by (simp add: socket_leave_def members_def members_room_del)

lemma members_fold_room_del:
  "(case fold (\<lambda>r rooms. room_del rooms r a) rs rooms q of None \<Rightarrow> [] | Some ms \<Rightarrow> ms) =
     (if q \<in> set rs then removeAll a (case rooms q of None \<Rightarrow> [] | Some ms \<Rightarrow> ms)
      else (case rooms q of None \<Rightarrow> [] | Some ms \<Rightarrow> ms))"
proof (induction rs arbitrary: rooms)
  case Nil
  show ?case by simp
next
  case (Cons r rs)
  show ?case
    by (simp add: Cons.IH members_room_del)
qed

lemma members_leaveAll:
  "members (leaveAll s a) q =
     (if q \<in> set (socket_rooms s a) then removeAll a (members s q) else members s q)"
  by (simp add: leaveAll_def members_def members_fold_room_del)

lemma socket_rooms_leaveAll:
  "socket_rooms (leaveAll s a) b = (if b = a then [] else socket_rooms s b)"
  by (simp add: leaveAll_def socket_rooms_def)

lemma room_del_no_empty:
  "rooms q \<noteq> Some [] \<Longrightarrow> room_del rooms r a q \<noteq> Some []"
  by (simp add: room_del_def split: option.splits)

lemma fold_room_del_no_empty:
  "rooms q \<noteq> Some [] \<Longrightarrow> fold (\<lambda>r rooms. room_del rooms r a) rs rooms q \<noteq> Some []"
  by (induction rs arbitrary: rooms) (simp_all add: room_del_no_empty)

lemma sids_None_join:
  "adapter_sids (socket_join s a r) b = None \<longleftrightarrow> b \<noteq> a \<and> adapter_sids s b = None"
  by (simp add: socket_join_def)

lemma sids_None_leave:
  "adapter_sids (socket_leave s a r) b = None \<longleftrightarrow> adapter_sids s b = None"
  by (simp add: socket_leave_def split: option.splits)

lemma socket_rooms_Nil: "adapter_sids s a = None \<Longrightarrow> socket_rooms s a = []"
  by (simp add: socket_rooms_def)

lemma users_join [simp]: "users (socket_join s a r) = users s"
  and pingIntervals_join [simp]: "pingIntervals (socket_join s a r) = pingIntervals s"
  and acks_join [simp]: "acks (socket_join s a r) = acks s"
  by (simp_all add: socket_join_def)

lemma users_leave [simp]: "users (socket_leave s a r) = users s"
  and pingIntervals_leave [simp]: "pingIntervals (socket_leave s a r) = pingIntervals s"
  and acks_leave [simp]: "acks (socket_leave s a r) = acks s"
  by (simp_all add: socket_leave_def)

lemma set_add_not_Nil: "set_add xs x \<noteq> []"
  by (auto simp: set_add_def)

lemma distinct_set_add: "distinct xs \<Longrightarrow> distinct (set_add xs x)"
  by (simp add: set_add_def)

lemma set_set_add: "set (set_add xs x) = insert x (set xs)"
  by (auto simp: set_add_def)

lemma rooms_ok_join:
  assumes "rooms_ok s"
  shows "rooms_ok (socket_join s a r)"
proof -
  have d: "distinct (members (socket_join s a r) q)" for q
    using assms by (simp add: members_join distinct_set_add rooms_ok_def)
  have n: "adapter_rooms (socket_join s a r) q \<noteq> Some []" for q
    using assms by (simp add: socket_join_def set_add_not_Nil rooms_ok_def)
  show ?thesis
    unfolding rooms_ok_def using d n by blast
qed

lemma rooms_ok_leave:
  assumes "rooms_ok s"
  shows "rooms_ok (socket_leave s a r)"
proof -
  have d: "distinct (members (socket_leave s a r) q)" for q
    using assms by (simp add: members_leave distinct_removeAll rooms_ok_def)
  have n: "adapter_rooms (socket_leave s a r) q \<noteq> Some []" for q
    using assms by (simp add: socket_leave_def room_del_no_empty rooms_ok_def)
  show ?thesis
    unfolding rooms_ok_def using d n by blast
qed

lemma linked_join: "linked s \<Longrightarrow> linked (socket_join s a r)"
  unfolding linked_def
  by (simp add: members_join socket_rooms_join set_set_add)

lemma linked_leave: "linked s \<Longrightarrow> linked (socket_leave s a r)"
  unfolding linked_def
  by (auto simp: members_leave socket_rooms_leave)

lemma registry_ok_leave: "registry_ok s \<Longrightarrow> registry_ok (socket_leave s a r)"
  unfolding registry_ok_def by (simp add: sids_None_leave)

lemma registry_ok_join:
  "registry_ok s \<Longrightarrow> adapter_sids s a \<noteq> None \<Longrightarrow> registry_ok (socket_join s a r)"
  unfolding registry_ok_def by (auto simp: sids_None_join)

lemma shape_D:
  "shape s \<Longrightarrow> socket_rooms s a = [] \<or> socket_rooms s a = [a] \<or>
               (\<exists>c. c \<noteq> [] \<and> c \<noteq> a \<and> socket_rooms s a = [a, c])"
  by (simp add: shape_def)

lemma shape_leave:
  assumes "shape s" "r \<noteq> a"
  shows "shape (socket_leave s a r)"
  unfolding shape_def
proof
  fix b
  show "socket_rooms (socket_leave s a r) b = [] \<or> socket_rooms (socket_leave s a r) b = [b] \<or>
        (\<exists>c. c \<noteq> [] \<and> c \<noteq> b \<and> socket_rooms (socket_leave s a r) b = [b, c])"
  proof -
    consider "socket_rooms s b = []" | "socket_rooms s b = [b]"
      | c where "c \<noteq> []" "c \<noteq> b" "socket_rooms s b = [b, c]"
      using shape_D [OF assms(1), of b] by blast
    then show ?thesis
    proof cases
      case 1
      then show ?thesis by (auto simp: socket_rooms_leave)
    next
      case 2
      then show ?thesis using assms(2) by (auto simp: socket_rooms_leave)
    next
      case 3
      then show ?thesis using assms(2) by (cases "r = c") (auto simp: socket_rooms_leave)
    qed
  qed
qed

lemma shape_join:
  assumes "shape s" "r \<noteq> []" "socket_rooms s a = [] \<longrightarrow> r = a" "length (socket_rooms s a) \<le> 1"
  shows "shape (socket_join s a r)"
  unfolding shape_def
proof
  fix b
  show "socket_rooms (socket_join s a r) b = [] \<or> socket_rooms (socket_join s a r) b = [b] \<or>
        (\<exists>c. c \<noteq> [] \<and> c \<noteq> b \<and> socket_rooms (socket_join s a r) b = [b, c])"
    using assms(2,3,4) shape_D [OF assms(1), of b]
    by (auto simp: socket_rooms_join set_add_def)
qed

lemma live_ok_leave:
  assumes "live_ok s" "shape s" "r \<noteq> a"
  shows "live_ok (socket_leave s a r)"
  unfolding live_ok_def
proof (intro allI impI)
  fix b
  assume "adapter_sids (socket_leave s a r) b \<noteq> None"
  then have b: "adapter_sids s b \<noteq> None"
    by (simp add: sids_None_leave)
  with assms(1) have l: "length b = 20" and n: "socket_rooms s b \<noteq> []"
    by (simp_all add: live_ok_def)
  have "socket_rooms (socket_leave s a r) b \<noteq> []"
    using n assms(3) shape_D [OF assms(2), of b] by (auto simp: socket_rooms_leave)
  with l show "length b = 20 \<and> socket_rooms (socket_leave s a r) b \<noteq> []"
    by simp
qed

lemma live_ok_join:
  assumes "live_ok s" "length a = 20"
  shows "live_ok (socket_join s a r)"
  using assms unfolding live_ok_def
  by (auto simp: sids_None_join socket_rooms_join set_add_not_Nil)

lemma invariant_leave:
  assumes "invariant s" "r \<noteq> a"
  shows "invariant (socket_leave s a r)"
  using assms unfolding invariant_def
  by (simp add: shape_leave live_ok_leave rooms_ok_leave linked_leave registry_ok_leave)

lemma invariant_join:
  assumes "invariant s" "adapter_sids s a \<noteq> None" "r \<noteq> []" "length (socket_rooms s a) \<le> 1"
  shows "invariant (socket_join s a r)"
proof -
  from assms(1,2) have l: "length a = 20" and n: "socket_rooms s a \<noteq> []"
    by (simp_all add: invariant_def live_ok_def)
  show ?thesis
    using assms l n unfolding invariant_def
    by (simp add: shape_join live_ok_join rooms_ok_join linked_join registry_ok_join)
qed

lemma getCurrentRoom_two: "socket_rooms s a = [a, c] \<Longrightarrow> getCurrentRoom s a = Some c"
  by (simp add: getCurrentRoom_def)

lemma getCurrentRoom_short: "length (socket_rooms s a) \<le> 1 \<Longrightarrow> getCurrentRoom s a = None"
  by (cases "socket_rooms s a") (auto simp: getCurrentRoom_def split: list.splits)

lemma disconnecting_in:
  "socket_rooms s a = [a, c] \<Longrightarrow> c \<noteq> [] \<Longrightarrow>
   disconnecting s a = (socket_leave s a c, emitUserList (socket_leave s a c) c)"
  by (simp add: disconnecting_def getCurrentRoom_two ifRoom_def Let_def)

lemma disconnecting_out: "length (socket_rooms s a) \<le> 1 \<Longrightarrow> disconnecting s a = (s, [])"
  by (simp add: disconnecting_def getCurrentRoom_short ifRoom_def)

lemma createRoom_alt:
  "createRoom s a uid =
     (let (s1, out1) = disconnecting s a; s2 = socket_join s1 a (toUpperCase uid)
      in (s2, out1 @ emitUserList s2 (toUpperCase uid)
               @ [Callback a (ErrorRoomID None (Some (toUpperCase uid)))]))"
  by (simp add: createRoom_def disconnecting_def Let_def)

lemma joinRoom_alt:
  "joinRoom s a r =
     (if adapter_rooms s r \<noteq> None then
        (let (s1, out1) = disconnecting s a; s2 = socket_join s1 a r
         in (s2, out1 @ emitUserList s2 r @ [Callback a (ErrorRoomID None (Some r))]))
      else (s, [Callback a (ErrorRoomID (Some ''Room does not exist'') None)]))"
  by (simp add: joinRoom_def disconnecting_def Let_def)

lemma leaveRoom_in:
  "socket_rooms s a = [a, c] \<Longrightarrow> c \<noteq> [] \<Longrightarrow>
   leaveRoom s a = (socket_leave s a c,
                    emitUserList (socket_leave s a c) c @ [Callback a (ErrorOnly None)])"
  by (simp add: leaveRoom_def getCurrentRoom_two ifRoom_def Let_def)

lemma leaveRoom_out:
  "length (socket_rooms s a) \<le> 1 \<Longrightarrow>
   leaveRoom s a = (s, [Callback a (ErrorOnly (Some ''No room to leave''))])"
  by (simp add: leaveRoom_def getCurrentRoom_short ifRoom_def)

text \<open>The leave block at the head of create-room, join-room and disconnecting.\<close>

lemma disconnecting_cases:
  assumes "shape s"
  obtains (out) "length (socket_rooms s a) \<le> 1" "disconnecting s a = (s, [])"
  | (inside) c where "c \<noteq> []" "c \<noteq> a" "socket_rooms s a = [a, c]"
      "disconnecting s a = (socket_leave s a c, emitUserList (socket_leave s a c) c)"
proof -
  consider "socket_rooms s a = []" | "socket_rooms s a = [a]"
    | c where "c \<noteq> []" "c \<noteq> a" "socket_rooms s a = [a, c]"
    using shape_D [OF assms, of a] by blast
  then show thesis
  proof cases
    case 1
    then show thesis using out disconnecting_out [of s a] by simp
  next
    case 2
    then show thesis using out disconnecting_out [of s a] by simp
  next
    case 3
    then show thesis using inside disconnecting_in [of s a c] by simp
  qed
qed

lemma invariant_disconnecting:
  assumes "invariant s"
  shows "invariant (fst (disconnecting s a))"
    and "length (socket_rooms (fst (disconnecting s a)) a) \<le> 1"
    and "adapter_sids (fst (disconnecting s a)) b = None \<longleftrightarrow> adapter_sids s b = None"
    and "users (fst (disconnecting s a)) = users s"
    and "pingIntervals (fst (disconnecting s a)) = pingIntervals s"
    and "acks (fst (disconnecting s a)) = acks s"
proof -
  from assms have sh: "shape s" by (simp add: invariant_def)
  show "invariant (fst (disconnecting s a))"
    by (rule disconnecting_cases [OF sh, of a]) (simp_all add: assms invariant_leave)
  show "length (socket_rooms (fst (disconnecting s a)) a) \<le> 1"
    by (rule disconnecting_cases [OF sh, of a]) (simp_all add: socket_rooms_leave)
  show "adapter_sids (fst (disconnecting s a)) b = None \<longleftrightarrow> adapter_sids s b = None"
    by (rule disconnecting_cases [OF sh, of a]) (simp_all add: sids_None_leave)
  show "users (fst (disconnecting s a)) = users s"
    by (rule disconnecting_cases [OF sh, of a]) simp_all
  show "pingIntervals (fst (disconnecting s a)) = pingIntervals s"
    by (rule disconnecting_cases [OF sh, of a]) simp_all
  show "acks (fst (disconnecting s a)) = acks s"
    by (rule disconnecting_cases [OF sh, of a]) simp_all
qed

lemma adapter_frame:
  assumes "adapter_sids t = adapter_sids s" "adapter_rooms t = adapter_rooms s"
  shows "socket_rooms t = socket_rooms s" "members t = members s"
    "shape t = shape s" "live_ok t = live_ok s" "rooms_ok t = rooms_ok s" "linked t = linked s"
proof -
  show sr: "socket_rooms t = socket_rooms s"
    by (simp add: fun_eq_iff socket_rooms_def assms)
  show mb: "members t = members s"
    by (simp add: fun_eq_iff members_def assms)
  show "shape t = shape s" by (simp add: shape_def sr)
  show "live_ok t = live_ok s" by (simp add: live_ok_def sr assms)
  show "rooms_ok t = rooms_ok s" by (simp add: rooms_ok_def mb assms)
  show "linked t = linked s" by (simp add: linked_def sr mb)
qed

lemma invariant_frame:
  assumes "invariant s" "adapter_sids t = adapter_sids s" "adapter_rooms t = adapter_rooms s"
    and "registry_ok t"
  shows "invariant t"
  using assms(1,4) adapter_frame(3-6) [OF assms(2,3)] by (simp add: invariant_def)

lemma invariant_acks_update: "invariant s \<Longrightarrow> invariant (s\<lparr>acks := k\<rparr>)"
  by (rule invariant_frame [of s]) (simp_all add: invariant_def registry_ok_def)

lemma invariant_users_update:
  assumes "invariant s" "map_of (users s) a = Some u"
  shows "invariant (s\<lparr>users := AList.update a v (users s)\<rparr>)"
proof (rule invariant_frame [OF assms(1)])
  from assms(1) have rg: "registry_ok s" by (simp add: invariant_def)
  then have "map_of (users s) a = None \<longleftrightarrow> adapter_sids s a = None"
    by (simp add: registry_ok_def)
  with assms(2) have "adapter_sids s a \<noteq> None"
    by simp
  with rg show "registry_ok (s\<lparr>users := AList.update a v (users s)\<rparr>)"
    by (simp add: registry_ok_def update_conv')
qed simp_all

lemma invariant_connection:
  assumes "invariant s" "length a = 20" "adapter_sids s a = None"
    and "connection (socket_join s a a) a rnd = Some s1"
  shows "invariant s1"
proof -
  let ?j = "socket_join s a a"
  have sr: "socket_rooms s a = []"
    using assms(3) by (simp add: socket_rooms_Nil)
  from assms(1) have sh0: "shape s" and lv0: "live_ok s" and ro0: "rooms_ok s"
    and li0: "linked s" and rg0: "registry_ok s"
    by (simp_all add: invariant_def)
  have ne: "a \<noteq> []" using assms(2) by auto
  have sh: "shape ?j"
    using sh0 ne sr by (intro shape_join) simp_all
  have lv: "live_ok ?j" using lv0 assms(2) by (rule live_ok_join)
  have ro: "rooms_ok ?j" using ro0 by (rule rooms_ok_join)
  have li: "linked ?j" using li0 by (rule linked_join)
  obtain n where s1: "s1 = ?j\<lparr>users := AList.update a
        \<lparr>user_id = a, name = n, ping = 0, currentlyWatching = [], currentTime = 0\<rparr> (users s),
      pingIntervals := (pingIntervals s)(a \<mapsto> ())\<rparr>"
    using assms(4) by (auto simp: connection_def split: option.splits)
  have as: "adapter_sids s1 = adapter_sids ?j" and ar: "adapter_rooms s1 = adapter_rooms ?j"
    by (simp_all add: s1)
  have "registry_ok s1"
    unfolding registry_ok_def
  proof (intro allI)
    fix b
    show "(map_of (users s1) b = None \<longleftrightarrow> adapter_sids s1 b = None) \<and>
          (pingIntervals s1 b = None \<longleftrightarrow> adapter_sids s1 b = None)"
      using rg0 by (cases "b = a") (simp_all add: s1 registry_ok_def update_conv' sids_None_join)
  qed
  then show ?thesis
    using sh lv ro li adapter_frame(3-6) [OF as ar] by (simp add: invariant_def)
qed

lemma sids_leaveAll:
  "adapter_sids (leaveAll s a) b = (if b = a then None else adapter_sids s b)"
  by (simp add: leaveAll_def)

lemma invariant_leaveAll_disconnect:
  assumes "invariant s"
  shows "invariant (disconnect (leaveAll s a) a)"
proof -
  let ?l = "leaveAll s a"
  let ?d = "disconnect ?l a"
  from assms have sh: "shape s" and lv: "live_ok s" and ro: "rooms_ok s" and li: "linked s"
    and rg: "registry_ok s"
    by (simp_all add: invariant_def)
  have sh': "shape ?l"
    using sh unfolding shape_def by (simp add: socket_rooms_leaveAll)
  have lv': "live_ok ?l"
    using lv unfolding live_ok_def by (simp add: socket_rooms_leaveAll sids_leaveAll)
  have ro': "rooms_ok ?l"
    unfolding rooms_ok_def
  proof
    fix r
    have "adapter_rooms ?l r \<noteq> Some []"
      using ro by (simp add: leaveAll_def rooms_ok_def fold_room_del_no_empty)
    moreover have "distinct (members ?l r)"
      using ro by (simp add: members_leaveAll rooms_ok_def distinct_removeAll)
    ultimately show "adapter_rooms ?l r \<noteq> Some [] \<and> distinct (members ?l r)"
      by simp
  qed
  have li': "linked ?l"
    unfolding linked_def
  proof (intro allI)
    fix b r
    show "r \<in> set (socket_rooms ?l b) \<longleftrightarrow> b \<in> set (members ?l r)"
      using li by (cases "b = a") (simp_all add: linked_def members_leaveAll socket_rooms_leaveAll)
  qed
  have as: "adapter_sids ?d = adapter_sids ?l" and ar: "adapter_rooms ?d = adapter_rooms ?l"
    by (simp_all add: disconnect_def Let_def)
  have us: "users ?d = AList.delete a (users s)"
    by (simp add: disconnect_def Let_def leaveAll_def)
  have pi: "pingIntervals ?d = (pingIntervals s)(a := None)"
    by (cases "pingIntervals s a") (auto simp: disconnect_def Let_def leaveAll_def fun_eq_iff)
  have "registry_ok ?d"
    unfolding registry_ok_def
  proof (intro allI)
    fix b
    show "(map_of (users ?d) b = None \<longleftrightarrow> adapter_sids ?d b = None) \<and>
          (pingIntervals ?d b = None \<longleftrightarrow> adapter_sids ?d b = None)"
      using rg unfolding us pi as
      by (cases "b = a") (simp_all add: registry_ok_def delete_conv' sids_leaveAll)
  qed
  then show ?thesis
    using sh' lv' ro' li' adapter_frame(3-6) [OF as ar] by (simp add: invariant_def)
qed

lemma length_toUpperCase [simp]: "length (toUpperCase str) = length str"
  by (simp add: toUpperCase_def)

lemma live_socket_rooms:
  "invariant s \<Longrightarrow> socket_rooms s a \<noteq> [] \<longleftrightarrow> adapter_sids s a \<noteq> None"
  by (auto simp: invariant_def live_ok_def socket_rooms_def split: option.splits)

lemma room_code_nonempty:
  assumes "invariant s" "adapter_rooms s r \<noteq> None"
  shows "r \<noteq> []"
proof -
  from assms have "members s r \<noteq> []"
    by (auto simp: invariant_def rooms_ok_def members_def)
  then obtain b where b: "b \<in> set (members s r)"
    by (cases "members s r") auto
  with assms(1) have r: "r \<in> set (socket_rooms s b)"
    by (simp add: invariant_def linked_def)
  then have "socket_rooms s b \<noteq> []" by auto
  with assms(1) have "length b = 20"
    by (auto simp: invariant_def live_ok_def socket_rooms_def split: option.splits)
  then have "b \<noteq> []" by auto
  from assms(1) have "shape s" by (simp add: invariant_def)
  from shape_D [OF this, of b] r \<open>b \<noteq> []\<close> show ?thesis
    by auto
qed

lemma invariant_createRoom:
  assumes "invariant s" "adapter_sids s a \<noteq> None" "length uid = 10"
  shows "invariant (fst (createRoom s a uid))"
proof -
  have "toUpperCase uid \<noteq> []" using assms(3) by (auto simp: toUpperCase_def)
  then have "invariant (socket_join (fst (disconnecting s a)) a (toUpperCase uid))"
    using invariant_disconnecting(1) [OF assms(1), of a]
      invariant_disconnecting(2) [OF assms(1), of a]
      invariant_disconnecting(3) [OF assms(1), of a a] assms(2)
    by (intro invariant_join) simp_all
  then show ?thesis
    by (simp add: createRoom_alt split_def Let_def)
qed

lemma invariant_joinRoom:
  assumes "invariant s" "adapter_sids s a \<noteq> None"
  shows "invariant (fst (joinRoom s a r))"
proof (cases "adapter_rooms s r = None")
  case True
  then show ?thesis using assms(1) by (simp add: joinRoom_alt)
next
  case False
  then have "r \<noteq> []" using assms(1) by (simp add: room_code_nonempty)
  then have "invariant (socket_join (fst (disconnecting s a)) a r)"
    using invariant_disconnecting(1) [OF assms(1), of a]
      invariant_disconnecting(2) [OF assms(1), of a]
      invariant_disconnecting(3) [OF assms(1), of a a] assms(2)
    by (intro invariant_join) simp_all
  then show ?thesis
    using False by (simp add: joinRoom_alt split_def Let_def)
qed

lemma invariant_leaveRoom:
  assumes "invariant s"
  shows "invariant (fst (leaveRoom s a))"
proof -
  from assms have sh: "shape s" by (simp add: invariant_def)
  show ?thesis
    by (rule disconnecting_cases [OF sh, of a])
       (simp_all add: leaveRoom_in leaveRoom_out assms invariant_leave)
qed

lemma invariant_step:
  assumes "invariant s" "admissible s e" "step s e = Some (Inr (t, out))"
  shows "invariant t"
proof (cases e)
  case (Connection a rnd)
  then show ?thesis
    using assms invariant_connection [where s = s and a = a and rnd = rnd]
    by (auto split: option.splits)
next
  case (Disconnect a)
  then show ?thesis
    using assms(3) invariant_leaveAll_disconnect [OF invariant_disconnecting(1) [OF assms(1), of a], of a]
    by (auto simp: split_def Let_def)
next
  case (ChangeUsername a n)
  then show ?thesis
    using assms(1,3) by (auto simp: changeUsername_def Let_def invariant_users_update split: option.splits)
next
  case (GetUsername a)
  then show ?thesis
    using assms(1,3) by (auto simp: getUsername_def split: option.splits)
next
  case (CreateRoom a uid)
  then show ?thesis
    using assms invariant_createRoom [of s a uid] by auto
next
  case (JoinRoom a r)
  then show ?thesis
    using assms invariant_joinRoom [of s a r] by auto
next
  case (LeaveRoom a)
  then show ?thesis
    using assms invariant_leaveRoom [of s a] by auto
next
  case (GetCurrentRoom a)
  then show ?thesis using assms(1,3) by (auto simp: getCurrentRoomEvent_def)
next
  case (PlayEvent a)
  then show ?thesis using assms(1,3) by (auto simp: play_def)
next
  case (PauseEvent a)
  then show ?thesis using assms(1,3) by (auto simp: pause_def)
next
  case (SyncEvent a t)
  then show ?thesis using assms(1,3) by (auto simp: sync_def)
next
  case (CurrentlyWatching a m t)
  then show ?thesis
    using assms(1,3)
    by (auto simp: currentlyWatchingEvent_def ifRoom_def invariant_users_update
             split: option.splits if_splits)
next
  case (Tick a now)
  then show ?thesis
    using assms(1,3) by (auto simp: tick_def ifRoom_def invariant_acks_update split: option.splits if_splits)
next
  case (PingReply n fin)
  then show ?thesis
    using assms(1,3)
      invariant_users_update [OF invariant_acks_update [OF assms(1)], of _ "probe_socket (acks s ! n)"]
    by (auto simp: pingReply_def Let_def split: option.splits if_splits)
qed

lemma invariant_exec:
  "invariant s \<Longrightarrow> exec s es = Some t \<Longrightarrow> invariant t"
proof (induction es arbitrary: s)
  case Nil
  then show ?case by simp
next
  case (Cons e es)
  from Cons.prems(2) obtain s1 out where a: "admissible s e"
    and st: "step s e = Some (Inr (s1, out))" and ex: "exec s1 es = Some t"
    by (auto split: if_splits option.splits sum.splits)
  from invariant_step [OF Cons.prems(1) a st] ex show ?case
    by (rule Cons.IH)
qed

lemma invariant_init: "invariant init"
  by (simp add: invariant_def shape_def live_ok_def rooms_ok_def linked_def registry_ok_def
        init_def socket_rooms_def members_def)

lemma reachable_invariant: "reachable s \<Longrightarrow> invariant s"
  using invariant_exec [OF invariant_init] by (auto simp: reachable_def)

section \<open>Evaluating the scenarios\<close>

lemmas model_defs =
  init_def connection_def getRandomUsername_def pick_def defaultUsernamePrefixes_def
  defaultUsernameSuffixes_def socket_join_def socket_leave_def room_del_def leaveAll_def
  set_add_def socket_rooms_def members_def getCurrentRoom_def ifRoom_def emitTo_def
  emitUserList_def disconnecting_def disconnect_def changeUsername_def getUsername_def
  createRoom_def joinRoom_def leaveRoom_def getCurrentRoomEvent_def play_def pause_def sync_def
  currentlyWatchingEvent_def tick_def pingReply_def toUpperCase_def toUpperCase_char_def
  lowerCaseLetters_def upperCaseLetters_def Let_def alice_def bob_def draws_def

lemma reachable_run: "exec init es \<noteq> None \<Longrightarrow> reachable (run es)"
  by (auto simp: reachable_def run_def)

lemma current_room_Some:
  assumes "invariant s" "getCurrentRoom s a = Some r"
  shows "socket_rooms s a = [a, r]" "r \<noteq> []" "r \<noteq> a" "a \<in> set (members s r)"
    "adapter_sids s a \<noteq> None"
proof -
  from assms(1) have sh: "shape s" and li: "linked s" by (simp_all add: invariant_def)
  from shape_D [OF sh, of a] assms(2)
  show sr: "socket_rooms s a = [a, r]" and "r \<noteq> []" and "r \<noteq> a"
    by (auto simp: getCurrentRoom_def)
  from sr have "r \<in> set (socket_rooms s a)" by simp
  with li show "a \<in> set (members s r)"
    by (simp add: linked_def)
  from sr show "adapter_sids s a \<noteq> None"
    by (auto simp: socket_rooms_def split: option.splits)
qed

lemma current_room_None:
  assumes "invariant s" "adapter_sids s a \<noteq> None" "getCurrentRoom s a = None"
  shows "socket_rooms s a = [a]"
proof -
  from assms(1) have sh: "shape s" and lv: "live_ok s" by (simp_all add: invariant_def)
  from lv assms(2) have "socket_rooms s a \<noteq> []" by (simp add: live_ok_def)
  with shape_D [OF sh, of a] assms(3) show ?thesis
    by (auto simp: getCurrentRoom_def)
qed

lemma registry_record:
  assumes "invariant s" "adapter_sids s a \<noteq> None"
  shows "\<exists>u. map_of (users s) a = Some u"
proof -
  from assms(1) have "map_of (users s) a = None \<longleftrightarrow> adapter_sids s a = None"
    by (simp add: invariant_def registry_ok_def)
  with assms(2) show ?thesis by auto
qed

section \<open>Playback relay\<close>

text \<open>
  Claim C6. In every reachable state, for a connection whose current room is \<open>r\<close>, a
  play or pause event sends one bare play or pause signal to room \<open>r\<close>, and a sync event
  with time \<open>t\<close> sends one sync signal carrying exactly \<open>t\<close>; the signal is delivered to
  all members of \<open>r\<close>, the sender among them, and every connection whose current room
  is \<open>r\<close> is such a member. The state is unchanged. For a connection in no room the three
  events change nothing and send nothing: no error is signalled.
\<close>

theorem C6_playback_relay:
  assumes "reachable s"
  shows "case getCurrentRoom s a of
           None \<Rightarrow> play s a = (s, []) \<and> pause s a = (s, []) \<and> sync s a t = (s, [])
         | Some r \<Rightarrow>
             play s a = (s, [Emit r (members s r) Play]) \<and>
             pause s a = (s, [Emit r (members s r) Pause]) \<and>
             sync s a t = (s, [Emit r (members s r) (Sync t)]) \<and>
             a \<in> set (members s r) \<and>
             (\<forall>b. getCurrentRoom s b = Some r \<longrightarrow> b \<in> set (members s r))"
proof (cases "getCurrentRoom s a")
  case None
  then show ?thesis
    by (simp add: play_def pause_def sync_def ifRoom_def)
next
  case (Some r)
  have inv: "invariant s" using assms by (rule reachable_invariant)
  have "r \<noteq> []" using current_room_Some(2) [OF inv Some] .
  moreover have "b \<in> set (members s r)" if "getCurrentRoom s b = Some r" for b
    using current_room_Some(4) [OF inv that] .
  ultimately show ?thesis
    using Some by (simp add: play_def pause_def sync_def ifRoom_def emitTo_def)
qed

lemma party_exec:
  "exec init [Connection alice draws, CreateRoom alice ''abcdefghij'',
              Connection bob draws, JoinRoom bob ''ABCDEFGHIJ''] \<noteq> None"
  by (simp add: model_defs username_loop.simps)

lemma party_reachable: "reachable party"
  unfolding party_def using party_exec by (rule reachable_run)

lemma party_rooms:
  "getCurrentRoom party bob = Some ''ABCDEFGHIJ''"
  "members party ''ABCDEFGHIJ'' = [alice, bob]"
  by (simp_all add: party_def run_def model_defs username_loop.simps)

theorem C6_witness:
  "reachable party \<and> getCurrentRoom party bob = Some ''ABCDEFGHIJ'' \<and>
   sync party bob 42 = (party, [Emit ''ABCDEFGHIJ'' [alice, bob] (Sync 42)])"
  using C6_playback_relay [OF party_reachable, of bob 42] party_reachable
  by (simp add: party_rooms)

section \<open>Watching state\<close>

text \<open>
  Claim C7. In every reachable state, for a connection \<open>a\<close> that is in a room, a
  currentlyWatching event with media id \<open>m\<close> and time \<open>t\<close> sets the fields
  \<open>currentlyWatching\<close> and \<open>currentTime\<close> of \<open>a\<close>'s own presence record to \<open>m\<close> and
  \<open>t\<close> and leaves the other fields of that record, every other record, the order of the
  records, the room memberships, the timers and the waiting replies as they were; nothing is
  sent, so no presence broadcast happens. For a connection in no room the event changes
  nothing and sends nothing.
\<close>

theorem C7_watching_frame:
  assumes "reachable s"
  shows "case getCurrentRoom s a of
           None \<Rightarrow> currentlyWatchingEvent s a m t = Inr (s, [])
         | Some r \<Rightarrow>
             (\<exists>u s'. map_of (users s) a = Some u \<and>
                currentlyWatchingEvent s a m t = Inr (s', []) \<and>
                map_of (users s') a = Some (u\<lparr>currentlyWatching := m, currentTime := t\<rparr>) \<and>
                (\<forall>b. b \<noteq> a \<longrightarrow> map_of (users s') b = map_of (users s) b) \<and>
                map fst (users s') = map fst (users s) \<and>
                adapter_sids s' = adapter_sids s \<and> adapter_rooms s' = adapter_rooms s \<and>
                pingIntervals s' = pingIntervals s \<and> acks s' = acks s)"
proof (cases "getCurrentRoom s a")
  case None
  then show ?thesis
    by (simp add: currentlyWatchingEvent_def ifRoom_def)
next
  case (Some r)
  have inv: "invariant s" using assms by (rule reachable_invariant)
  have ne: "r \<noteq> []" using current_room_Some(2) [OF inv Some] .
  obtain u where u: "map_of (users s) a = Some u"
    using registry_record [OF inv current_room_Some(5) [OF inv Some]] by blast
  then have k: "a \<in> fst ` set (users s)"
    by (auto dest: map_of_SomeD intro: rev_image_eqI)
  show ?thesis
    using Some ne u k
    by (simp add: currentlyWatchingEvent_def ifRoom_def update_conv' update_keys)
qed

lemma party_record:
  "map_of (users party) bob =
     Some \<lparr>user_id = bob, name = ''Cool Panda'', ping = 0, currentlyWatching = [], currentTime = 0\<rparr>"
  by (simp add: party_def run_def model_defs username_loop.simps)

theorem C7_witness:
  "reachable party \<and> getCurrentRoom party bob = Some ''ABCDEFGHIJ'' \<and>
   (\<exists>s'. currentlyWatchingEvent party bob ''80100172'' 90 = Inr (s', []) \<and>
      map_of (users s') bob =
        Some \<lparr>user_id = bob, name = ''Cool Panda'', ping = 0, currentlyWatching = ''80100172'',
              currentTime = 90\<rparr> \<and>
      map_of (users s') alice = map_of (users party) alice \<and>
      adapter_rooms s' = adapter_rooms party)"
proof -
  have ne: "alice \<noteq> bob" by (simp add: alice_def bob_def)
  from C7_watching_frame [OF party_reachable, of bob "''80100172''" 90]
  obtain u s' where "map_of (users party) bob = Some u"
    and "currentlyWatchingEvent party bob ''80100172'' 90 = Inr (s', [])"
    and "map_of (users s') bob = Some (u\<lparr>currentlyWatching := ''80100172'', currentTime := 90\<rparr>)"
    and "\<forall>b. b \<noteq> bob \<longrightarrow> map_of (users s') b = map_of (users party) b"
    and "adapter_rooms s' = adapter_rooms party"
    by (auto simp: party_rooms)
  with ne party_reachable show ?thesis
    by (auto simp: party_rooms party_record)
qed

section \<open>What the handlers send and where they leave the caller\<close>

lemma members_nonempty:
  "invariant s \<Longrightarrow> members s r \<noteq> [] \<longleftrightarrow> adapter_rooms s r \<noteq> None"
  by (auto simp: invariant_def rooms_ok_def members_def split: option.splits)

lemma room_exists_iff:
  assumes "invariant s"
  shows "adapter_rooms s r \<noteq> None \<longleftrightarrow> (\<exists>b. r \<in> set (socket_rooms s b))"
proof -
  from assms have li: "linked s" by (simp add: invariant_def)
  have "members s r \<noteq> [] \<longleftrightarrow> (\<exists>b. b \<in> set (members s r))"
    by (cases "members s r") auto
  moreover have "members s r \<noteq> [] \<longleftrightarrow> adapter_rooms s r \<noteq> None"
    using assms by (rule members_nonempty)
  ultimately show ?thesis
    using li unfolding linked_def by simp
qed

lemma emitUserList_eq:
  "invariant s \<Longrightarrow>
   emitUserList s r = (if members s r = [] then [] else [presence_broadcast s r])"
  by (auto simp: emitUserList_def emitTo_def presence_broadcast_def invariant_def rooms_ok_def
        members_def split: option.splits)

lemma disconnecting_eq:
  assumes "invariant s"
  shows "fst (disconnecting s a) = (case getCurrentRoom s a of None \<Rightarrow> s | Some c \<Rightarrow> socket_leave s a c)"
    and "snd (disconnecting s a) = vacated_broadcast s a"
proof -
  from assms have sh: "shape s" by (simp add: invariant_def)
  show "fst (disconnecting s a) = (case getCurrentRoom s a of None \<Rightarrow> s | Some c \<Rightarrow> socket_leave s a c)"
    by (rule disconnecting_cases [OF sh, of a])
       (simp_all add: getCurrentRoom_short getCurrentRoom_two)
  show "snd (disconnecting s a) = vacated_broadcast s a"
  proof (rule disconnecting_cases [OF sh, of a])
    assume "length (socket_rooms s a) \<le> 1" "disconnecting s a = (s, [])"
    then show ?thesis
      by (simp add: vacated_broadcast_def getCurrentRoom_short)
  next
    fix c
    assume c: "c \<noteq> []" "c \<noteq> a" "socket_rooms s a = [a, c]"
      and d: "disconnecting s a = (socket_leave s a c, emitUserList (socket_leave s a c) c)"
    have "invariant (socket_leave s a c)"
      using assms c(2) by (rule invariant_leave)
    then show ?thesis
      using c d
      by (simp add: vacated_broadcast_def getCurrentRoom_two emitUserList_eq members_leave
            presence_broadcast_def)
  qed
qed

lemma after_leave_block:
  assumes "invariant s" "adapter_sids s a \<noteq> None"
  shows "socket_rooms (fst (disconnecting s a)) a = [a]"
    and "members (fst (disconnecting s a)) r =
           (if getCurrentRoom s a = Some r then removeAll a (members s r) else members s r)"
proof -
  from assms have sh: "shape s" by (simp add: invariant_def)
  let ?s1 = "fst (disconnecting s a)"
  have "invariant ?s1" "length (socket_rooms ?s1 a) \<le> 1" "adapter_sids ?s1 a \<noteq> None"
    using invariant_disconnecting(1) [OF assms(1), of a]
      invariant_disconnecting(2) [OF assms(1), of a]
      invariant_disconnecting(3) [OF assms(1), of a a] assms(2) by simp_all
  then have "getCurrentRoom ?s1 a = None" "invariant ?s1" "adapter_sids ?s1 a \<noteq> None"
    by (simp_all add: getCurrentRoom_short)
  then show "socket_rooms ?s1 a = [a]"
    using current_room_None by blast
  show "members ?s1 r = (if getCurrentRoom s a = Some r then removeAll a (members s r) else members s r)"
    by (rule disconnecting_cases [OF sh, of a])
       (auto simp: getCurrentRoom_short getCurrentRoom_two members_leave)
qed

lemma joinRoom_missing:
  assumes "adapter_rooms s r = None"
  shows "joinRoom s a r = (s, [Callback a (ErrorRoomID (Some ''Room does not exist'') None)])"
  using assms by (simp add: joinRoom_def)

lemma joinRoom_present:
  assumes "invariant s" "adapter_sids s a \<noteq> None" "adapter_rooms s r \<noteq> None"
  shows "\<exists>t. joinRoom s a r =
               (t, vacated_broadcast s a @ [presence_broadcast t r, Callback a (ErrorRoomID None (Some r))]) \<and>
             invariant t \<and>
             a \<in> set (members t r) \<and>
             socket_rooms t a = (if r = a then [a] else [a, r]) \<and>
             (\<forall>c. getCurrentRoom s a = Some c \<longrightarrow> c \<noteq> r \<longrightarrow> a \<notin> set (members t c)) \<and>
             users t = users s"
proof -
  let ?s1 = "fst (disconnecting s a)"
  let ?t = "socket_join ?s1 a r"
  have jr: "joinRoom s a r = (?t, snd (disconnecting s a) @ emitUserList ?t r
                                  @ [Callback a (ErrorRoomID None (Some r))])"
    using assms(3) by (simp add: joinRoom_alt split_def Let_def)
  have inv: "invariant ?t"
    using invariant_joinRoom [OF assms(1,2), of r] jr by simp
  have sr: "socket_rooms ?s1 a = [a]"
    using assms(1,2) by (rule after_leave_block(1))
  have m: "a \<in> set (members ?t r)"
    by (simp add: members_join set_set_add)
  then have e: "emitUserList ?t r = [presence_broadcast ?t r]"
    using inv by (auto simp: emitUserList_eq)
  have "socket_rooms ?t a = (if r = a then [a] else [a, r])"
    by (simp add: socket_rooms_join sr set_add_def)
  moreover have "a \<notin> set (members ?t c)" if "getCurrentRoom s a = Some c" "c \<noteq> r" for c
    using that by (simp add: members_join after_leave_block(2) [OF assms(1,2)])
  moreover have "users ?t = users s"
    using invariant_disconnecting(4) [OF assms(1), of a] by simp
  ultimately show ?thesis
    using jr inv m e disconnecting_eq(2) [OF assms(1), of a] by simp
qed

lemma no_callback_in_vacated: "Callback b v \<notin> set (vacated_broadcast s a)"
  by (simp add: vacated_broadcast_def split: option.splits)

section \<open>join-room\<close>

text \<open>
  Claim C4. In every reachable state and for every live connection \<open>a\<close> and code \<open>r\<close>:
  join-room delivers the error Room does not exist with a null roomID if and only if no
  connection is associated with \<open>r\<close>, and then the state is unchanged and nothing else is
  sent. Otherwise \<open>a\<close> leaves its current room if it has one, the members that remain
  there being sent their presence list; \<open>a\<close> becomes a member of \<open>r\<close>; the presence
  list of \<open>r\<close> is broadcast; and the callback receives a null error and \<open>r\<close> as roomID.
\<close>

theorem C4_join_room:
  assumes "reachable s" "adapter_sids s a \<noteq> None"
  shows "(Callback a (ErrorRoomID (Some ''Room does not exist'') None) \<in> set (snd (joinRoom s a r))
            \<longleftrightarrow> (\<forall>b. r \<notin> set (socket_rooms s b))) \<and>
         ((\<forall>b. r \<notin> set (socket_rooms s b)) \<longrightarrow>
            joinRoom s a r = (s, [Callback a (ErrorRoomID (Some ''Room does not exist'') None)])) \<and>
         ((\<exists>b. r \<in> set (socket_rooms s b)) \<longrightarrow>
            (\<exists>t. joinRoom s a r =
                    (t, vacated_broadcast s a
                        @ [presence_broadcast t r, Callback a (ErrorRoomID None (Some r))]) \<and>
                 a \<in> set (members t r) \<and>
                 socket_rooms t a = (if r = a then [a] else [a, r]) \<and>
                 (\<forall>c. getCurrentRoom s a = Some c \<longrightarrow> c \<noteq> r \<longrightarrow> a \<notin> set (members t c)) \<and>
                 users t = users s))"
proof (cases "adapter_rooms s r = None")
  case True
  have inv: "invariant s" using assms(1) by (rule reachable_invariant)
  have "\<forall>b. r \<notin> set (socket_rooms s b)"
    using room_exists_iff [OF inv, of r] True by simp
  then show ?thesis
    using joinRoom_missing [OF True, of a] by simp
next
  case False
  have inv: "invariant s" using assms(1) by (rule reachable_invariant)
  have ex: "\<exists>b. r \<in> set (socket_rooms s b)"
    using room_exists_iff [OF inv, of r] False by simp
  from joinRoom_present [OF inv assms(2) False]
  obtain t where t: "joinRoom s a r =
        (t, vacated_broadcast s a @ [presence_broadcast t r, Callback a (ErrorRoomID None (Some r))])"
    and rest: "a \<in> set (members t r)" "socket_rooms t a = (if r = a then [a] else [a, r])"
      "\<forall>c. getCurrentRoom s a = Some c \<longrightarrow> c \<noteq> r \<longrightarrow> a \<notin> set (members t c)" "users t = users s"
    by blast
  have "Callback a (ErrorRoomID (Some ''Room does not exist'') None) \<notin> set (snd (joinRoom s a r))"
    by (simp add: t no_callback_in_vacated presence_broadcast_def)
  then show ?thesis
    using ex t rest by auto
qed

lemma lobby_exec:
  "exec init [Connection alice draws, CreateRoom alice ''abcdefghij'', Connection bob draws] \<noteq> None"
  by (simp add: model_defs username_loop.simps)

lemma lobby_reachable: "reachable lobby"
  unfolding lobby_def using lobby_exec by (rule reachable_run)

lemma lobby_rooms:
  "adapter_sids lobby alice = Some [alice, ''ABCDEFGHIJ'']"
  "adapter_sids lobby bob = Some [bob]"
  "socket_rooms lobby b = (if b = alice then [alice, ''ABCDEFGHIJ''] else if b = bob then [bob] else [])"
  by (simp_all add: lobby_def run_def model_defs username_loop.simps)

theorem C4_witness:
  "reachable lobby \<and> adapter_sids lobby bob \<noteq> None \<and>
   joinRoom lobby bob ''NOTAREALCODE'' =
     (lobby, [Callback bob (ErrorRoomID (Some ''Room does not exist'') None)]) \<and>
   (\<exists>t. joinRoom lobby bob ''ABCDEFGHIJ'' =
           (t, [presence_broadcast t ''ABCDEFGHIJ'',
                Callback bob (ErrorRoomID None (Some ''ABCDEFGHIJ''))]) \<and>
         bob \<in> set (members t ''ABCDEFGHIJ''))"
proof -
  have live: "adapter_sids lobby bob \<noteq> None"
    by (simp add: lobby_rooms)
  have none: "\<forall>b. ''NOTAREALCODE'' \<notin> set (socket_rooms lobby b)"
    by (simp add: lobby_rooms alice_def bob_def)
  have some: "\<exists>b. ''ABCDEFGHIJ'' \<in> set (socket_rooms lobby b)"
    by (rule exI [of _ alice]) (simp add: lobby_rooms)
  have vac: "vacated_broadcast lobby bob = []"
    by (simp add: vacated_broadcast_def getCurrentRoom_def lobby_rooms alice_def bob_def)
  from C4_join_room [OF lobby_reachable live, of "''NOTAREALCODE''"] none
  have "joinRoom lobby bob ''NOTAREALCODE'' =
     (lobby, [Callback bob (ErrorRoomID (Some ''Room does not exist'') None)])"
    by blast
  moreover from C4_join_room [OF lobby_reachable live, of "''ABCDEFGHIJ''"] some
  have "\<exists>t. joinRoom lobby bob ''ABCDEFGHIJ'' =
           (t, [presence_broadcast t ''ABCDEFGHIJ'',
                Callback bob (ErrorRoomID None (Some ''ABCDEFGHIJ''))]) \<and>
         bob \<in> set (members t ''ABCDEFGHIJ'')"
    unfolding vac by auto
  ultimately show ?thesis
    using lobby_reachable live by blast
qed

section \<open>Private rooms\<close>

text \<open>
  Claim C10. In every reachable state every live connection \<open>b\<close> is a member of the room
  named by its own identity, which is no code that create-room can return (those have 10
  characters). For live connections \<open>a\<close> and \<open>b\<close> that differ, join-room issued by
  \<open>a\<close> with \<open>b\<close>'s identity as the code passes the existence test: the callback receives
  a null error and \<open>b\<close>'s identity as roomID, and \<open>a\<close>'s current room is then the
  private room of \<open>b\<close>, with both as members.
\<close>

theorem C10_private_room_joinable:
  assumes "reachable s" "adapter_sids s a \<noteq> None" "adapter_sids s b \<noteq> None" "a \<noteq> b"
  shows "b \<in> set (members s b) \<and> (\<forall>uid. length uid = 10 \<longrightarrow> toUpperCase uid \<noteq> b) \<and>
         (\<exists>t. joinRoom s a b =
                 (t, vacated_broadcast s a
                     @ [presence_broadcast t b, Callback a (ErrorRoomID None (Some b))]) \<and>
               getCurrentRoom t a = Some b \<and> a \<in> set (members t b) \<and> b \<in> set (members t b))"
proof -
  have inv: "invariant s" using assms(1) by (rule reachable_invariant)
  then have sh: "shape s" and lv: "live_ok s" and li: "linked s"
    by (simp_all add: invariant_def)
  from lv assms(3) have len: "length b = 20" and ne: "socket_rooms s b \<noteq> []"
    by (simp_all add: live_ok_def)
  from shape_D [OF sh, of b] ne have "b \<in> set (socket_rooms s b)"
    by auto
  with li have mem: "b \<in> set (members s b)"
    by (simp add: linked_def)
  then have ex: "adapter_rooms s b \<noteq> None"
    by (cases "adapter_rooms s b") (auto simp: members_def)
  from joinRoom_present [OF inv assms(2) ex]
  obtain t where t: "joinRoom s a b =
        (t, vacated_broadcast s a @ [presence_broadcast t b, Callback a (ErrorRoomID None (Some b))])"
    and it: "invariant t" and at: "a \<in> set (members t b)"
    and sr: "socket_rooms t a = (if b = a then [a] else [a, b])"
    by blast
  from sr assms(4) have sr': "socket_rooms t a = [a, b]" by simp
  then have cur: "getCurrentRoom t a = Some b"
    by (rule getCurrentRoom_two)
  have "t = socket_join (fst (disconnecting s a)) a b"
    using t ex by (simp add: joinRoom_alt split_def Let_def)
  then have "members t b = set_add (members (fst (disconnecting s a)) b) a"
    by (simp add: members_join)
  moreover have "getCurrentRoom s a \<noteq> Some b \<or> b \<in> set (removeAll a (members s b))"
    using mem assms(4) by simp
  ultimately have bt: "b \<in> set (members t b)"
    using mem after_leave_block(2) [OF inv assms(2), of b]
    by (auto simp: set_set_add)
  have "toUpperCase uid \<noteq> b" if "length uid = 10" for uid
    using that len length_toUpperCase [of uid] by auto
  then show ?thesis
    using mem t cur at bt by blast
qed

theorem C10_witness:
  "reachable lobby \<and> adapter_sids lobby bob \<noteq> None \<and> adapter_sids lobby alice \<noteq> None \<and>
   bob \<noteq> alice \<and>
   (\<exists>t. joinRoom lobby bob alice =
           (t, vacated_broadcast lobby bob
               @ [presence_broadcast t alice, Callback bob (ErrorRoomID None (Some alice))]) \<and>
         getCurrentRoom t bob = Some alice)"
proof -
  have live: "adapter_sids lobby bob \<noteq> None" "adapter_sids lobby alice \<noteq> None"
    by (simp_all add: lobby_rooms)
  have ne: "bob \<noteq> alice"
    by (simp add: alice_def bob_def)
  from C10_private_room_joinable [OF lobby_reachable live ne] lobby_reachable live ne
  show ?thesis by blast
qed

lemma members_after_leave_block:
  assumes "invariant s" "adapter_sids s a \<noteq> None" "r \<noteq> a"
  shows "members (fst (disconnecting s a)) r = removeAll a (members s r)"
proof (cases "getCurrentRoom s a = Some r")
  case True
  then show ?thesis
    by (simp add: after_leave_block(2) [OF assms(1,2)])
next
  case False
  from assms(1) have sh: "shape s" and li: "linked s" by (simp_all add: invariant_def)
  have "r \<notin> set (socket_rooms s a)"
    using shape_D [OF sh, of a] False assms(3) by (auto simp: getCurrentRoom_def)
  with li have "a \<notin> set (members s r)"
    by (simp add: linked_def)
  then show ?thesis
    using False by (simp add: after_leave_block(2) [OF assms(1,2)])
qed

lemma createRoom_result:
  assumes "invariant s" "adapter_sids s a \<noteq> None" "length uid = 10"
  shows "\<exists>t. createRoom s a uid =
               (t, vacated_broadcast s a
                   @ [presence_broadcast t (toUpperCase uid),
                      Callback a (ErrorRoomID None (Some (toUpperCase uid)))]) \<and>
             invariant t \<and>
             socket_rooms t a = [a, toUpperCase uid] \<and>
             members t (toUpperCase uid) = removeAll a (members s (toUpperCase uid)) @ [a] \<and>
             (\<forall>c. getCurrentRoom s a = Some c \<longrightarrow> c \<noteq> toUpperCase uid \<longrightarrow> a \<notin> set (members t c)) \<and>
             users t = users s"
proof -
  let ?code = "toUpperCase uid"
  let ?s1 = "fst (disconnecting s a)"
  let ?t = "socket_join ?s1 a ?code"
  from assms(1,2) have "length a = 20"
    by (simp add: invariant_def live_ok_def)
  with assms(3) have ne: "?code \<noteq> a"
    using length_toUpperCase [of uid] by auto
  have cr: "createRoom s a uid = (?t, snd (disconnecting s a) @ emitUserList ?t ?code
                                  @ [Callback a (ErrorRoomID None (Some ?code))])"
    by (simp add: createRoom_alt split_def Let_def)
  have inv: "invariant ?t"
    using invariant_createRoom [OF assms] cr by simp
  have sr: "socket_rooms ?s1 a = [a]"
    using assms(1,2) by (rule after_leave_block(1))
  have m1: "members ?s1 ?code = removeAll a (members s ?code)"
    using assms(1,2) ne by (rule members_after_leave_block)
  have m: "members ?t ?code = removeAll a (members s ?code) @ [a]"
    by (simp add: members_join m1 set_add_def)
  then have e: "emitUserList ?t ?code = [presence_broadcast ?t ?code]"
    using inv by (simp add: emitUserList_eq)
  have "socket_rooms ?t a = [a, ?code]"
    using ne by (simp add: socket_rooms_join sr set_add_def)
  moreover have "a \<notin> set (members ?t c)" if "getCurrentRoom s a = Some c" "c \<noteq> ?code" for c
    using that by (simp add: members_join after_leave_block(2) [OF assms(1,2)])
  moreover have "users ?t = users s"
    using invariant_disconnecting(4) [OF assms(1), of a] by simp
  ultimately show ?thesis
    using cr inv m e disconnecting_eq(2) [OF assms(1), of a] by simp
qed

lemma leaveRoom_Some:
  assumes "invariant s" "getCurrentRoom s a = Some c"
  shows "leaveRoom s a = (socket_leave s a c, vacated_broadcast s a @ [Callback a (ErrorOnly None)])"
    and "invariant (socket_leave s a c)"
    and "socket_rooms (socket_leave s a c) a = [a]"
    and "members (socket_leave s a c) c = removeAll a (members s c)"
proof -
  note cs = current_room_Some [OF assms]
  have d: "disconnecting s a = (socket_leave s a c, emitUserList (socket_leave s a c) c)"
    using cs(1,2) by (rule disconnecting_in)
  show "leaveRoom s a = (socket_leave s a c, vacated_broadcast s a @ [Callback a (ErrorOnly None)])"
    using leaveRoom_in [OF cs(1,2)] disconnecting_eq(2) [OF assms(1), of a] d by simp
  show "invariant (socket_leave s a c)"
    using assms(1) cs(3) by (rule invariant_leave)
  show "socket_rooms (socket_leave s a c) a = [a]"
    using cs(1,3) by (simp add: socket_rooms_leave)
  show "members (socket_leave s a c) c = removeAll a (members s c)"
    by (simp add: members_leave)
qed

lemma leaveRoom_None:
  assumes "getCurrentRoom s a = None"
  shows "leaveRoom s a = (s, [Callback a (ErrorOnly (Some ''No room to leave''))])"
  using assms by (simp add: leaveRoom_def ifRoom_def)

lemma leave_succeeds_iff:
  assumes "invariant s"
  shows "leave_succeeds s a \<longleftrightarrow> getCurrentRoom s a \<noteq> None"
    and "leave_fails s a \<longleftrightarrow> getCurrentRoom s a = None"
proof -
  show "leave_succeeds s a \<longleftrightarrow> getCurrentRoom s a \<noteq> None"
  proof (cases "getCurrentRoom s a")
    case None
    then show ?thesis by (simp add: leave_succeeds_def leaveRoom_None)
  next
    case (Some c)
    then show ?thesis
      by (simp add: leave_succeeds_def leaveRoom_Some(1) [OF assms Some])
  qed
  show "leave_fails s a \<longleftrightarrow> getCurrentRoom s a = None"
  proof (cases "getCurrentRoom s a")
    case None
    then show ?thesis by (simp add: leave_fails_def leaveRoom_None)
  next
    case (Some c)
    then show ?thesis
      by (simp add: leave_fails_def leaveRoom_Some(1) [OF assms Some] no_callback_in_vacated)
  qed
qed

lemma leave_once:
  assumes "invariant t" "socket_rooms t a = [a, c]"
  shows "leave_succeeds t a \<and> \<not> leave_succeeds (fst (leaveRoom t a)) a"
proof -
  have cur: "getCurrentRoom t a = Some c"
    using assms(2) by (rule getCurrentRoom_two)
  then have "leave_succeeds t a"
    by (simp add: leave_succeeds_iff(1) [OF assms(1)])
  moreover have "getCurrentRoom (socket_leave t a c) a = None"
    using leaveRoom_Some(3) [OF assms(1) cur] by (simp add: getCurrentRoom_def)
  then have "\<not> leave_succeeds (socket_leave t a c) a"
    by (simp add: leave_succeeds_iff(1) [OF leaveRoom_Some(2) [OF assms(1) cur]])
  ultimately show ?thesis
    by (simp add: leaveRoom_Some(1) [OF assms(1) cur])
qed

section \<open>leave-room\<close>

text \<open>
  Claim C5, as amended. In every reachable state and for every live connection \<open>a\<close>:
  leave-room delivers the error No room to leave if and only if \<open>a\<close> is not in a room,
  and then the state is unchanged. When \<open>a\<close> is in room \<open>c\<close>, \<open>a\<close> is taken out of
  \<open>c\<close>, the members that remain are sent their presence list, and the callback receives a
  null error. After a create-room, and after a successful join-room whose code is not the
  caller's own connection identity, leave-room succeeds, and a second leave-room right after
  it does not.
\<close>

theorem C5_leave_room:
  assumes "reachable s" "adapter_sids s a \<noteq> None"
  shows "(leave_fails s a \<longleftrightarrow> getCurrentRoom s a = None) \<and>
         (getCurrentRoom s a = None \<longrightarrow>
            leaveRoom s a = (s, [Callback a (ErrorOnly (Some ''No room to leave''))])) \<and>
         (\<forall>c. getCurrentRoom s a = Some c \<longrightarrow>
            (\<exists>t. leaveRoom s a = (t, vacated_broadcast s a @ [Callback a (ErrorOnly None)]) \<and>
                 a \<notin> set (members t c) \<and> getCurrentRoom t a = None \<and> users t = users s)) \<and>
         (\<forall>uid. length uid = 10 \<longrightarrow>
            leave_succeeds (fst (createRoom s a uid)) a \<and>
            \<not> leave_succeeds (fst (leaveRoom (fst (createRoom s a uid)) a)) a) \<and>
         (\<forall>r. join_succeeds s a r \<longrightarrow> r \<noteq> a \<longrightarrow>
            leave_succeeds (fst (joinRoom s a r)) a \<and>
            \<not> leave_succeeds (fst (leaveRoom (fst (joinRoom s a r)) a)) a)"
proof -
  have inv: "invariant s" using assms(1) by (rule reachable_invariant)
  have one: "leave_fails s a \<longleftrightarrow> getCurrentRoom s a = None"
    using inv by (rule leave_succeeds_iff(2))
  have two: "getCurrentRoom s a = None \<longrightarrow>
      leaveRoom s a = (s, [Callback a (ErrorOnly (Some ''No room to leave''))])"
    by (simp add: leaveRoom_None)
  have three: "\<exists>t. leaveRoom s a = (t, vacated_broadcast s a @ [Callback a (ErrorOnly None)]) \<and>
      a \<notin> set (members t c) \<and> getCurrentRoom t a = None \<and> users t = users s"
    if c: "getCurrentRoom s a = Some c" for c
    using leaveRoom_Some [OF inv c]
    by (intro exI [of _ "socket_leave s a c"]) (simp add: getCurrentRoom_def)
  have four: "leave_succeeds (fst (createRoom s a uid)) a \<and>
      \<not> leave_succeeds (fst (leaveRoom (fst (createRoom s a uid)) a)) a"
    if "length uid = 10" for uid
  proof -
    from createRoom_result [OF inv assms(2) that]
    obtain t where "fst (createRoom s a uid) = t" "invariant t" "socket_rooms t a = [a, toUpperCase uid]"
      by auto
    then show ?thesis
      using leave_once by simp
  qed
  have five: "leave_succeeds (fst (joinRoom s a r)) a \<and>
      \<not> leave_succeeds (fst (leaveRoom (fst (joinRoom s a r)) a)) a"
    if j: "join_succeeds s a r" and r: "r \<noteq> a" for r
  proof -
    have ex: "adapter_rooms s r \<noteq> None"
      using j by (cases "adapter_rooms s r = None") (simp_all add: join_succeeds_def joinRoom_missing)
    from joinRoom_present [OF inv assms(2) ex] r
    obtain t where "fst (joinRoom s a r) = t" "invariant t" "socket_rooms t a = [a, r]"
      by auto
    then show ?thesis
      using leave_once by simp
  qed
  from one two three four five show ?thesis
    by blast
qed

lemma alone_exec: "exec init [Connection alice draws] \<noteq> None"
  by (simp add: model_defs username_loop.simps)

lemma alone_reachable: "reachable alone"
  unfolding alone_def using alone_exec by (rule reachable_run)

lemma alone_live: "adapter_sids alone alice \<noteq> None"
  by (simp add: alone_def run_def model_defs username_loop.simps)

theorem C5_witness:
  "reachable lobby \<and> adapter_sids lobby bob \<noteq> None \<and> length ''klmnopqrst'' = 10 \<and>
   join_succeeds lobby bob ''ABCDEFGHIJ'' \<and> ''ABCDEFGHIJ'' \<noteq> bob \<and>
   leave_fails lobby bob \<and>
   leave_succeeds (fst (createRoom lobby bob ''klmnopqrst'')) bob \<and>
   \<not> leave_succeeds (fst (leaveRoom (fst (createRoom lobby bob ''klmnopqrst'')) bob)) bob \<and>
   leave_succeeds (fst (joinRoom lobby bob ''ABCDEFGHIJ'')) bob \<and>
   \<not> leave_succeeds (fst (leaveRoom (fst (joinRoom lobby bob ''ABCDEFGHIJ'')) bob)) bob"
proof -
  have live: "adapter_sids lobby bob \<noteq> None"
    by (simp add: lobby_rooms)
  have cur: "getCurrentRoom lobby bob = None"
    by (simp add: getCurrentRoom_def lobby_rooms alice_def bob_def)
  have js: "join_succeeds lobby bob ''ABCDEFGHIJ''"
    by (simp add: join_succeeds_def lobby_def run_def model_defs username_loop.simps)
  have ne: "''ABCDEFGHIJ'' \<noteq> bob"
    by (simp add: bob_def)
  from C5_leave_room [OF lobby_reachable live] cur js ne lobby_reachable live
  show ?thesis by simp
qed

text \<open>
  Claim C5 as stated fails: Alice, alone and in no room, sends join-room with her own
  connection identity. The private room exists, so the join succeeds with a null error and her
  identity as roomID; joining the room she is already in adds nothing, and the leave-room that
  follows finds no room to leave.
\<close>

theorem C5_counterexample:
  "join_succeeds alone alice alice \<and> \<not> leave_succeeds (fst (joinRoom alone alice alice)) alice \<and>
   leave_fails (fst (joinRoom alone alice alice)) alice"
  by (simp add: join_succeeds_def leave_succeeds_def leave_fails_def alone_def run_def model_defs
        username_loop.simps)

lemma toUpperCase_char_not_lower: "toUpperCase_char c \<notin> set lowerCaseLetters"
proof (cases "map_of (zip lowerCaseLetters upperCaseLetters) c")
  case None
  then have "c \<notin> fst ` set (zip lowerCaseLetters upperCaseLetters)"
    by (simp add: map_of_eq_None_iff)
  then have "c \<notin> set lowerCaseLetters"
    by (simp add: lowerCaseLetters_def upperCaseLetters_def)
  with None show ?thesis
    by (simp add: toUpperCase_char_def)
next
  case (Some C)
  then have "(c, C) \<in> set (zip lowerCaseLetters upperCaseLetters)"
    by (rule map_of_SomeD)
  then have "C \<in> set upperCaseLetters"
    by (rule set_zip_rightD)
  then have "C \<notin> set lowerCaseLetters"
    by (auto simp: lowerCaseLetters_def upperCaseLetters_def)
  with Some show ?thesis
    by (simp add: toUpperCase_char_def)
qed

lemma toUpperCase_no_lower: "\<forall>ch \<in> set (toUpperCase str). ch \<notin> set lowerCaseLetters"
  by (auto simp: toUpperCase_def toUpperCase_char_not_lower)

lemma removeAll_Nil_iff: "removeAll a xs = [] \<longleftrightarrow> (\<forall>b. b \<noteq> a \<longrightarrow> b \<notin> set xs)"
  by (induction xs) auto

section \<open>Room codes\<close>

text \<open>
  Claim C8, as amended. In every reachable state, for a live connection \<open>a\<close> and a
  generator output \<open>uid\<close> of 10 characters, create-room hands the callback the code
  \<open>toUpperCase uid\<close>: 10 characters, none of them a lowercase letter. The handler does not
  compare the code with the rooms in use: the connections that are members of that code at
  the moment of creation stay members and the caller is added after them, so the caller is
  alone in the room exactly when no other connection is associated with the code.
\<close>

theorem C8_room_code:
  assumes "reachable s" "adapter_sids s a \<noteq> None" "length uid = 10"
  shows "\<exists>t. createRoom s a uid =
               (t, vacated_broadcast s a
                   @ [presence_broadcast t (toUpperCase uid),
                      Callback a (ErrorRoomID None (Some (toUpperCase uid)))]) \<and>
             length (toUpperCase uid) = 10 \<and>
             (\<forall>ch \<in> set (toUpperCase uid). ch \<notin> set lowerCaseLetters) \<and>
             getCurrentRoom t a = Some (toUpperCase uid) \<and>
             members t (toUpperCase uid) = removeAll a (members s (toUpperCase uid)) @ [a] \<and>
             (members t (toUpperCase uid) = [a] \<longleftrightarrow>
                (\<forall>b. b \<noteq> a \<longrightarrow> toUpperCase uid \<notin> set (socket_rooms s b)))"
proof -
  let ?code = "toUpperCase uid"
  have inv: "invariant s" using assms(1) by (rule reachable_invariant)
  then have li: "linked s" by (simp add: invariant_def)
  from createRoom_result [OF inv assms(2,3)]
  obtain t where t: "createRoom s a uid =
        (t, vacated_broadcast s a
            @ [presence_broadcast t ?code, Callback a (ErrorRoomID None (Some ?code))])"
    and sr: "socket_rooms t a = [a, ?code]"
    and m: "members t ?code = removeAll a (members s ?code) @ [a]"
    by blast
  have "removeAll a (members s ?code) = [] \<longleftrightarrow> (\<forall>b. b \<noteq> a \<longrightarrow> b \<notin> set (members s ?code))"
    by (rule removeAll_Nil_iff)
  also have "\<dots> \<longleftrightarrow> (\<forall>b. b \<noteq> a \<longrightarrow> ?code \<notin> set (socket_rooms s b))"
    using li by (simp add: linked_def)
  finally have "members t ?code = [a] \<longleftrightarrow> (\<forall>b. b \<noteq> a \<longrightarrow> ?code \<notin> set (socket_rooms s b))"
    by (simp add: m)
  then show ?thesis
    using t m assms(3) getCurrentRoom_two [OF sr] toUpperCase_no_lower [of uid]
    by (intro exI [of _ t]) simp
qed

lemma lobby_members: "members lobby ''ABCDEFGHIJ'' = [alice]"
  by (simp add: lobby_def run_def model_defs username_loop.simps)

theorem C8_witness:
  "reachable lobby \<and> adapter_sids lobby bob \<noteq> None \<and> length ''klmnopqrst'' = 10 \<and>
   (\<exists>t. createRoom lobby bob ''klmnopqrst'' =
           (t, vacated_broadcast lobby bob
               @ [presence_broadcast t ''KLMNOPQRST'',
                  Callback bob (ErrorRoomID None (Some ''KLMNOPQRST''))]) \<and>
         members t ''KLMNOPQRST'' = [bob])"
proof -
  have live: "adapter_sids lobby bob \<noteq> None"
    by (simp add: lobby_rooms)
  have len: "length ''klmnopqrst'' = 10"
    by simp
  have up: "toUpperCase ''klmnopqrst'' = ''KLMNOPQRST''"
    by (simp add: toUpperCase_def toUpperCase_char_def lowerCaseLetters_def upperCaseLetters_def)
  have free: "\<forall>b. b \<noteq> bob \<longrightarrow> ''KLMNOPQRST'' \<notin> set (socket_rooms lobby b)"
    by (simp add: lobby_rooms alice_def bob_def)
  from C8_room_code [OF lobby_reachable live len] free lobby_reachable live
  show ?thesis
    unfolding up by auto
qed

text \<open>
  Claim C8 as stated fails on freshness. Alice's room has the code ABCDEFGHIJ, made from the
  generator output abcdefghij. The generator then returns ABCDEFGHIJ, a string it has not
  returned before, for Bob's create-room: Bob is handed the code ABCDEFGHIJ, which at that
  moment has Alice as a member, and lands in her room.
\<close>

theorem C8_counterexample:
  "''ABCDEFGHIJ'' \<noteq> ''abcdefghij'' \<and> length ''ABCDEFGHIJ'' = 10 \<and>
   members lobby ''ABCDEFGHIJ'' = [alice] \<and>
   Callback bob (ErrorRoomID None (Some ''ABCDEFGHIJ'')) \<in> set (snd (createRoom lobby bob ''ABCDEFGHIJ'')) \<and>
   members (fst (createRoom lobby bob ''ABCDEFGHIJ'')) ''ABCDEFGHIJ'' = [alice, bob]"
  by (simp add: lobby_def run_def model_defs username_loop.simps)

lemma tick_None: "getCurrentRoom s a = None \<Longrightarrow> tick s a now = (s, [])"
  by (simp add: tick_def ifRoom_def)

lemma tick_Some:
  assumes "invariant s" "getCurrentRoom s a = Some r"
  shows "tick s a now =
           (s\<lparr>acks := acks s @ [\<lparr>probe_socket = a, probe_start = now, probe_room = r\<rparr>]\<rparr>,
            [PingRequest a])"
  using assms current_room_Some(2) [OF assms] by (simp add: tick_def ifRoom_def)

lemma pingReply_missing:
  "map_of (users s) (probe_socket p) = None \<Longrightarrow> pingReply s p fin = Inl TypeError"
  by (simp add: pingReply_def)

lemma pingReply_present:
  assumes "invariant s" "map_of (users s) (probe_socket p) = Some u"
  shows "\<exists>t. pingReply s p fin =
               Inr (t, if members s (probe_room p) = [] then []
                       else [presence_broadcast t (probe_room p)]) \<and>
             map_of (users t) (probe_socket p) = Some (u\<lparr>ping := fin - probe_start p\<rparr>) \<and>
             (\<forall>b. b \<noteq> probe_socket p \<longrightarrow> map_of (users t) b = map_of (users s) b) \<and>
             adapter_sids t = adapter_sids s \<and> adapter_rooms t = adapter_rooms s"
proof -
  let ?t = "s\<lparr>users := AList.update (probe_socket p) (u\<lparr>ping := fin - probe_start p\<rparr>) (users s)\<rparr>"
  have inv: "invariant ?t"
    using assms by (rule invariant_users_update)
  have m: "members ?t = members s"
    by (rule adapter_frame(2)) simp_all
  have "pingReply s p fin = Inr (?t, emitUserList ?t (probe_room p))"
    using assms(2) by (simp add: pingReply_def Let_def)
  then show ?thesis
    using emitUserList_eq [OF inv, of "probe_room p"] m
    by (intro exI [of _ ?t]) (simp add: update_conv')
qed

section \<open>The latency prober\<close>

text \<open>
  Claim C2, as amended. In every reachable state: a tick for a connection that is in no
  room changes nothing and sends no probe; a tick for a connection in room \<open>r\<close> sends
  the probe and leaves a reply callback that holds the start time and \<open>r\<close>. When the
  reply to a probe of a connection with a presence record arrives at time \<open>fin\<close>, the
  elapsed time \<open>fin - start\<close> is written into the \<open>ping\<close> field of that record, no
  other record and no membership changes, and the presence broadcast goes to the room the
  callback holds, that is the room the connection was in when the probe was sent, whatever
  room it is in when the reply arrives (nothing is sent if that room has no member left).
\<close>

theorem C2_latency_prober:
  assumes "reachable s"
  shows "(getCurrentRoom s a = None \<longrightarrow> tick s a now = (s, [])) \<and>
         (\<forall>r. getCurrentRoom s a = Some r \<longrightarrow>
            tick s a now =
              (s\<lparr>acks := acks s @ [\<lparr>probe_socket = a, probe_start = now, probe_room = r\<rparr>]\<rparr>,
               [PingRequest a])) \<and>
         (\<forall>p u. map_of (users s) (probe_socket p) = Some u \<longrightarrow>
            (\<exists>t. pingReply s p fin =
                    Inr (t, if members s (probe_room p) = [] then []
                            else [presence_broadcast t (probe_room p)]) \<and>
                  map_of (users t) (probe_socket p) = Some (u\<lparr>ping := fin - probe_start p\<rparr>) \<and>
                  (\<forall>b. b \<noteq> probe_socket p \<longrightarrow> map_of (users t) b = map_of (users s) b) \<and>
                  adapter_sids t = adapter_sids s \<and> adapter_rooms t = adapter_rooms s))"
proof -
  have inv: "invariant s" using assms by (rule reachable_invariant)
  show ?thesis
  proof (intro conjI allI impI)
    assume "getCurrentRoom s a = None"
    then show "tick s a now = (s, [])" by (rule tick_None)
  next
    fix r assume "getCurrentRoom s a = Some r"
    with inv show "tick s a now =
        (s\<lparr>acks := acks s @ [\<lparr>probe_socket = a, probe_start = now, probe_room = r\<rparr>]\<rparr>,
         [PingRequest a])"
      by (rule tick_Some)
  next
    fix p :: probe and u
    assume "map_of (users s) (probe_socket p) = Some u"
    with inv show "\<exists>t. pingReply s p fin =
                    Inr (t, if members s (probe_room p) = [] then []
                            else [presence_broadcast t (probe_room p)]) \<and>
                  map_of (users t) (probe_socket p) = Some (u\<lparr>ping := fin - probe_start p\<rparr>) \<and>
                  (\<forall>b. b \<noteq> probe_socket p \<longrightarrow> map_of (users t) b = map_of (users s) b) \<and>
                  adapter_sids t = adapter_sids s \<and> adapter_rooms t = adapter_rooms s"
      by (rule pingReply_present)
  qed
qed

theorem C2_witness:
  "reachable party \<and> getCurrentRoom party bob = Some ''ABCDEFGHIJ'' \<and>
   tick party bob 1000 =
     (party\<lparr>acks := acks party @ [\<lparr>probe_socket = bob, probe_start = 1000,
                                     probe_room = ''ABCDEFGHIJ''\<rparr>]\<rparr>, [PingRequest bob]) \<and>
   (\<exists>t. pingReply party \<lparr>probe_socket = bob, probe_start = 1000, probe_room = ''ABCDEFGHIJ''\<rparr> 1040 =
           Inr (t, [presence_broadcast t ''ABCDEFGHIJ'']) \<and>
         map_of (users t) bob =
           Some \<lparr>user_id = bob, name = ''Cool Panda'', ping = 40, currentlyWatching = [],
                 currentTime = 0\<rparr>)"
proof -
  let ?p = "\<lparr>probe_socket = bob, probe_start = 1000, probe_room = ''ABCDEFGHIJ''\<rparr>"
  let ?u = "\<lparr>user_id = bob, name = ''Cool Panda'', ping = 0, currentlyWatching = [],
             currentTime = 0\<rparr>"
  note c2 = C2_latency_prober [OF party_reachable, of bob 1000 1040]
  have rec: "map_of (users party) (probe_socket ?p) = Some ?u"
    by (simp add: party_record)
  from c2 have "tick party bob 1000 = (party\<lparr>acks := acks party @ [?p]\<rparr>, [PingRequest bob])"
    by (simp add: party_rooms)
  moreover from c2 [THEN conjunct2, THEN conjunct2, rule_format, OF rec]
  obtain t where "pingReply party ?p 1040 =
        Inr (t, if members party (probe_room ?p) = [] then []
                else [presence_broadcast t (probe_room ?p)])"
      and "map_of (users t) (probe_socket ?p) = Some (?u\<lparr>ping := 1040 - probe_start ?p\<rparr>)"
    by blast
  then have "pingReply party ?p 1040 = Inr (t, [presence_broadcast t ''ABCDEFGHIJ'']) \<and>
      map_of (users t) bob = Some (?u\<lparr>ping := 40\<rparr>)"
    by (simp add: party_rooms)
  ultimately show ?thesis
    using party_reachable by (auto simp: party_rooms)
qed

lemma moved_exec:
  "exec init [Connection alice draws, CreateRoom alice ''abcdefghij'', Connection bob draws,
              JoinRoom bob ''ABCDEFGHIJ'', Tick bob 1000, LeaveRoom bob,
              CreateRoom bob ''klmnopqrst''] \<noteq> None"
  by (simp add: model_defs username_loop.simps)

lemma moved_state:
  "acks moved = [\<lparr>probe_socket = bob, probe_start = 1000, probe_room = ''ABCDEFGHIJ''\<rparr>]"
  "adapter_sids moved bob = Some [bob, ''KLMNOPQRST'']"
  "adapter_rooms moved ''ABCDEFGHIJ'' = Some [alice]"
  "map_of (users moved) bob =
     Some \<lparr>user_id = bob, name = ''Cool Panda'', ping = 0, currentlyWatching = [], currentTime = 0\<rparr>"
  by (simp_all add: moved_def run_def model_defs username_loop.simps)

text \<open>
  Claim C2 as stated fails on the room of the broadcast. Bob is probed in Alice's room
  ABCDEFGHIJ, leaves it and creates KLMNOPQRST; when his reply arrives, his current room is
  KLMNOPQRST, and the only presence list sent goes to ABCDEFGHIJ, the room at request time.
\<close>

theorem C2_counterexample:
  "getCurrentRoom moved bob = Some ''KLMNOPQRST'' \<and>
   acks moved = [\<lparr>probe_socket = bob, probe_start = 1000, probe_room = ''ABCDEFGHIJ''\<rparr>] \<and>
   admissible moved (PingReply 0 1040) \<and>
   (case step moved (PingReply 0 1040) of
      Some (Inr (t, out)) \<Rightarrow>
        broadcast_rooms out = [''ABCDEFGHIJ''] \<and> getCurrentRoom t bob = Some ''KLMNOPQRST''
    | _ \<Rightarrow> False)"
  by (simp add: moved_state pingReply_def emitUserList_def emitTo_def getCurrentRoom_def
        socket_rooms_def members_def broadcast_rooms_def List.map_filter_simps Let_def)

lemma users_disconnecting: "users (fst (disconnecting s a)) = users s"
  and pingIntervals_disconnecting: "pingIntervals (fst (disconnecting s a)) = pingIntervals s"
  by (simp_all add: disconnecting_def ifRoom_def Let_def split: option.splits)

lemma registry_createRoom:
  "users (fst (createRoom s a uid)) = users s"
  "pingIntervals (fst (createRoom s a uid)) = pingIntervals s"
  by (simp_all add: createRoom_alt split_def Let_def users_disconnecting pingIntervals_disconnecting)

lemma registry_joinRoom:
  "users (fst (joinRoom s a r)) = users s"
  "pingIntervals (fst (joinRoom s a r)) = pingIntervals s"
  by (simp_all add: joinRoom_alt split_def Let_def users_disconnecting pingIntervals_disconnecting)

lemma registry_leaveRoom:
  "users (fst (leaveRoom s a)) = users s"
  "pingIntervals (fst (leaveRoom s a)) = pingIntervals s"
  by (simp_all add: leaveRoom_def ifRoom_def Let_def split: option.splits)

lemma unit_option_neq: "(x :: unit option) \<noteq> Some () \<longleftrightarrow> x = None"
  by (cases x) auto

lemma registry_disconnect:
  "map_of (users (disconnect (leaveAll s b) b)) a = (if a = b then None else map_of (users s) a)"
  "pingIntervals (disconnect (leaveAll s b) b) a = (if a = b then None else pingIntervals s a)"
  by (simp_all add: disconnect_def leaveAll_def Let_def delete_conv' unit_option_neq)

text \<open>
  A connection without record and timer stays so through every event but its own
  connection.
\<close>

lemma removed_step:
  assumes "map_of (users s) a = None" "pingIntervals s a = None"
    and "step s e = Some (Inr (t, out))" "\<forall>rnd. e \<noteq> Connection a rnd"
  shows "map_of (users t) a = None \<and> pingIntervals t a = None"
proof (cases e)
  case (Connection b rnd)
  with assms(4) have "b \<noteq> a" by auto
  with Connection assms(1,2,3) show ?thesis
    by (auto simp: connection_def update_conv' split: option.splits)
next
  case (Disconnect b)
  with assms(1,2,3) show ?thesis
    by (auto simp: split_def Let_def registry_disconnect users_disconnecting
          pingIntervals_disconnecting)
next
  case (ChangeUsername b n)
  with assms(1,2,3) show ?thesis
    by (auto simp: changeUsername_def Let_def update_conv' split: option.splits)
next
  case (GetUsername b)
  with assms(1,2,3) show ?thesis
    by (auto simp: getUsername_def split: option.splits)
next
  case (CreateRoom b uid)
  with assms(1,2,3) registry_createRoom [of s b uid] show ?thesis by auto
next
  case (JoinRoom b r)
  with assms(1,2,3) registry_joinRoom [of s b r] show ?thesis by auto
next
  case (LeaveRoom b)
  with assms(1,2,3) registry_leaveRoom [of s b] show ?thesis by auto
next
  case (GetCurrentRoom b)
  with assms(1,2,3) show ?thesis by (auto simp: getCurrentRoomEvent_def)
next
  case (PlayEvent b)
  with assms(1,2,3) show ?thesis by (auto simp: play_def)
next
  case (PauseEvent b)
  with assms(1,2,3) show ?thesis by (auto simp: pause_def)
next
  case (SyncEvent b x)
  with assms(1,2,3) show ?thesis by (auto simp: sync_def)
next
  case (CurrentlyWatching b m x)
  with assms(1,2,3) show ?thesis
    by (auto simp: currentlyWatchingEvent_def ifRoom_def update_conv' split: option.splits if_splits)
next
  case (Tick b now)
  with assms(1,2,3) show ?thesis
    by (auto simp: tick_def ifRoom_def split: option.splits if_splits)
next
  case (PingReply n fin)
  with assms(1,2,3) show ?thesis
    by (auto simp: pingReply_def Let_def update_conv' split: option.splits if_splits)
qed

lemma removed_exec:
  assumes "map_of (users s) a = None" "pingIntervals s a = None"
    and "exec s es = Some t" "\<forall>e \<in> set es. \<forall>rnd. e \<noteq> Connection a rnd"
  shows "map_of (users t) a = None \<and> pingIntervals t a = None \<and> (\<forall>now. Tick a now \<notin> set es)"
  using assms
proof (induction es arbitrary: s)
  case Nil
  then show ?case by simp
next
  case (Cons e es)
  from Cons.prems(3) obtain s1 out where ad: "admissible s e"
    and st: "step s e = Some (Inr (s1, out))" and ex: "exec s1 es = Some t"
    by (auto split: if_splits option.splits sum.splits)
  from Cons.prems(4) have ne: "\<forall>rnd. e \<noteq> Connection a rnd"
    and rest: "\<forall>e \<in> set es. \<forall>rnd. e \<noteq> Connection a rnd"
    by simp_all
  from removed_step [OF Cons.prems(1,2) st ne]
  have s1: "map_of (users s1) a = None" "pingIntervals s1 a = None"
    by simp_all
  have "e \<noteq> Tick a now" for now
    using ad Cons.prems(2) by auto
  with Cons.IH [OF s1 ex rest] show ?case
    by auto
qed

section \<open>Disconnect and the waiting reply\<close>

text \<open>
  Claim C3, as amended. In every reachable state, the disconnect of a live connection \<open>a\<close>
  removes its presence record and its timer. From then on, through every run of events in
  which \<open>a\<close> does not connect again, there is no record and no timer under \<open>a\<close> and
  no tick of \<open>a\<close>'s timer runs. The reply callback of a probe does not check that the
  record exists: run for \<open>a\<close> after the removal, it throws a TypeError at the write
  instead of returning, so it is a fault and not a no-op (and it writes nothing).
\<close>

theorem C3_disconnect_cleanup:
  assumes "reachable s" "adapter_sids s a \<noteq> None"
  shows "\<exists>t out. step s (Disconnect a) = Some (Inr (t, out)) \<and>
           map_of (users t) a = None \<and> pingIntervals t a = None \<and>
           (\<forall>es t'. exec t es = Some t' \<longrightarrow> (\<forall>e \<in> set es. \<forall>rnd. e \<noteq> Connection a rnd) \<longrightarrow>
              map_of (users t') a = None \<and> pingIntervals t' a = None \<and>
              (\<forall>now. Tick a now \<notin> set es) \<and>
              (\<forall>p fin. probe_socket p = a \<longrightarrow> pingReply t' p fin = Inl TypeError))"
proof -
  let ?t = "disconnect (leaveAll (fst (disconnecting s a)) a) a"
  have st: "step s (Disconnect a) = Some (Inr (?t, snd (disconnecting s a)))"
    by (simp add: split_def Let_def)
  have u: "map_of (users ?t) a = None" and p: "pingIntervals ?t a = None"
    by (simp_all add: registry_disconnect)
  have "map_of (users t') a = None \<and> pingIntervals t' a = None \<and>
        (\<forall>now. Tick a now \<notin> set es) \<and>
        (\<forall>p fin. probe_socket p = a \<longrightarrow> pingReply t' p fin = Inl TypeError)"
    if "exec ?t es = Some t'" "\<forall>e \<in> set es. \<forall>rnd. e \<noteq> Connection a rnd" for es t'
    using removed_exec [OF u p that] by (simp add: pingReply_missing)
  with st u p show ?thesis
    by blast
qed

theorem C3_witness:
  "reachable lobby \<and> adapter_sids lobby alice \<noteq> None \<and>
   (\<exists>t out. step lobby (Disconnect alice) = Some (Inr (t, out)) \<and>
      map_of (users t) alice = None \<and> pingIntervals t alice = None \<and>
      pingReply t \<lparr>probe_socket = alice, probe_start = 1000, probe_room = ''ABCDEFGHIJ''\<rparr> 1040 =
        Inl TypeError)"
proof -
  have live: "adapter_sids lobby alice \<noteq> None"
    by (simp add: lobby_rooms)
  from C3_disconnect_cleanup [OF lobby_reachable live]
  obtain t out where st: "step lobby (Disconnect alice) = Some (Inr (t, out))"
    and u: "map_of (users t) alice = None" "pingIntervals t alice = None"
    and later: "\<forall>es t'. exec t es = Some t' \<longrightarrow> (\<forall>e \<in> set es. \<forall>rnd. e \<noteq> Connection alice rnd) \<longrightarrow>
              map_of (users t') alice = None \<and> pingIntervals t' alice = None \<and>
              (\<forall>now. Tick alice now \<notin> set es) \<and>
              (\<forall>p fin. probe_socket p = alice \<longrightarrow> pingReply t' p fin = Inl TypeError)"
    by blast
  from later [rule_format, of "[]" t] have
    "\<forall>p fin. probe_socket p = alice \<longrightarrow> pingReply t p fin = Inl TypeError"
    by simp
  then have "pingReply t \<lparr>probe_socket = alice, probe_start = 1000, probe_room = ''ABCDEFGHIJ''\<rparr> 1040 =
        Inl TypeError"
    by simp
  with st u lobby_reachable live show ?thesis
    by blast
qed

lemma gone_state:
  "acks gone = [\<lparr>probe_socket = alice, probe_start = 1000, probe_room = ''ABCDEFGHIJ''\<rparr>]"
  "map_of (users gone) alice = None"
  "pingIntervals gone alice = None"
  by (simp_all add: gone_def run_def model_defs username_loop.simps)

text \<open>
  Claim C3 as stated fails on the check. Alice is probed in her room and disconnects; her
  record and timer are gone and the reply callback still waits. When the reply arrives the
  callback does not return: it throws a TypeError.
\<close>

theorem C3_counterexample:
  "map_of (users gone) alice = None \<and> pingIntervals gone alice = None \<and>
   acks gone = [\<lparr>probe_socket = alice, probe_start = 1000, probe_room = ''ABCDEFGHIJ''\<rparr>] \<and>
   admissible gone (PingReply 0 1040) \<and>
   step gone (PingReply 0 1040) = Some (Inl TypeError)"
  by (simp add: gone_state pingReply_def)

lemma username_loop_unfold:
  "username_loop names rnd k =
     (if username_at rnd k \<in> set names then username_loop names rnd (Suc k)
      else Some (username_at rnd k))"
  by (subst username_loop.simps) (simp add: username_at_def Let_def)

lemma username_loop_sound:
  assumes "username_loop names rnd k = Some y"
  shows "y \<notin> set names \<and> (\<exists>j. k \<le> j \<and> y = username_at rnd j)"
proof (rule username_loop.raw_induct
    [where P = "\<lambda>names rnd k y. y \<notin> set names \<and> (\<exists>j. k \<le> j \<and> y = username_at rnd j)",
     OF _ assms])
  fix loop :: "string list \<Rightarrow> (nat \<Rightarrow> nat \<times> nat) \<Rightarrow> nat \<Rightarrow> string option"
    and ns r i z
  assume IH: "\<And>ns r i z. loop ns r i = Some z \<Longrightarrow>
                z \<notin> set ns \<and> (\<exists>j. i \<le> j \<and> z = username_at r j)"
    and body: "(let prefix = pick defaultUsernamePrefixes (fst (r i));
                    suffix = pick defaultUsernameSuffixes (snd (r i));
                    username = prefix @ '' '' @ suffix
                in if username \<in> set ns then loop ns r (Suc i) else Some username) = Some z"
  show "z \<notin> set ns \<and> (\<exists>j. i \<le> j \<and> z = username_at r j)"
  proof (cases "username_at r i \<in> set ns")
    case True
    with body have "loop ns r (Suc i) = Some z"
      by (simp add: username_at_def Let_def)
    then have "z \<notin> set ns \<and> (\<exists>j. Suc i \<le> j \<and> z = username_at r j)"
      by (rule IH)
    then show ?thesis
      using Suc_leD by blast
  next
    case False
    with body have "z = username_at r i"
      by (simp add: username_at_def Let_def)
    with False show ?thesis by auto
  qed
qed

lemma username_loop_terminates:
  assumes "username_at rnd (k + d) \<notin> set names"
  shows "\<exists>y. username_loop names rnd k = Some y"
  using assms
proof (induction d arbitrary: k)
  case 0
  then show ?case
    by (subst username_loop_unfold) simp
next
  case (Suc d)
  from Suc.prems have "username_at rnd (Suc k + d) \<notin> set names" by simp
  from Suc.IH [OF this] show ?case
    by (subst username_loop_unfold) simp
qed

lemma username_loop_returns_iff:
  "username_loop names rnd 0 \<noteq> None \<longleftrightarrow> (\<exists>k. username_at rnd k \<notin> set names)"
proof
  assume "username_loop names rnd 0 \<noteq> None"
  then obtain y where "username_loop names rnd 0 = Some y" by auto
  from username_loop_sound [OF this] show "\<exists>k. username_at rnd k \<notin> set names"
    by auto
next
  assume "\<exists>k. username_at rnd k \<notin> set names"
  then obtain k where "username_at rnd (0 + k) \<notin> set names" by auto
  from username_loop_terminates [OF this] show "username_loop names rnd 0 \<noteq> None"
    by auto
qed

lemma changeUsername_present:
  assumes "map_of (users s) a = Some u"
  shows "\<exists>t out. changeUsername s a n = Inr (t, out) \<and>
           map_of (users t) a = Some (u\<lparr>name := n\<rparr>) \<and>
           (\<forall>b. b \<noteq> a \<longrightarrow> map_of (users t) b = map_of (users s) b) \<and>
           last out = Callback a (ErrorOnly None)"
  using assms by (simp add: changeUsername_def Let_def update_conv')

section \<open>Usernames\<close>

text \<open>
  Claim C9, as amended. On a connect, the name loop of register returns exactly when some
  round makes a name that no record holds, and it returns nothing otherwise. The name it
  returns is one of the names made and differs from the name of every record of that
  moment, and the new record has that name, ping 0 and an empty watching state. A
  change-username event of a connection with a record stores the requested name as it is,
  whatever names the other records hold, changes no other record, and hands the callback
  a null error.
\<close>

theorem C9_usernames:
  "(getRandomUsername us rnd \<noteq> None \<longleftrightarrow>
      (\<exists>k. username_at rnd k \<notin> set (map (\<lambda>user. name (snd user)) us))) \<and>
   (\<forall>n. getRandomUsername us rnd = Some n \<longrightarrow>
      (\<exists>k. n = username_at rnd k) \<and> (\<forall>b u. map_of us b = Some u \<longrightarrow> name u \<noteq> n)) \<and>
   (\<forall>s a t. connection s a rnd = Some t \<longrightarrow>
      (\<exists>n. getRandomUsername (users s) rnd = Some n \<and>
           map_of (users t) a =
             Some \<lparr>user_id = a, name = n, ping = 0, currentlyWatching = [], currentTime = 0\<rparr>)) \<and>
   (\<forall>s a u n. map_of (users s) a = Some u \<longrightarrow>
      (\<exists>t out. changeUsername s a n = Inr (t, out) \<and>
         map_of (users t) a = Some (u\<lparr>name := n\<rparr>) \<and>
         (\<forall>b. b \<noteq> a \<longrightarrow> map_of (users t) b = map_of (users s) b) \<and>
         last out = Callback a (ErrorOnly None)))"
proof -
  let ?names = "map (\<lambda>user. name (snd user)) us"
  have one: "getRandomUsername us rnd \<noteq> None \<longleftrightarrow> (\<exists>k. username_at rnd k \<notin> set ?names)"
    unfolding getRandomUsername_def by (rule username_loop_returns_iff)
  have two: "(\<exists>k. n = username_at rnd k) \<and> (\<forall>b u. map_of us b = Some u \<longrightarrow> name u \<noteq> n)"
    if "getRandomUsername us rnd = Some n" for n
  proof -
    from that have "n \<notin> set ?names \<and> (\<exists>j. 0 \<le> j \<and> n = username_at rnd j)"
      unfolding getRandomUsername_def by (rule username_loop_sound)
    moreover have "name u \<in> set ?names" if "map_of us b = Some u" for b u
      using map_of_SomeD [OF that] by force
    ultimately show ?thesis by metis
  qed
  have three: "\<exists>n. getRandomUsername (users s) rnd = Some n \<and>
      map_of (users t) a =
        Some \<lparr>user_id = a, name = n, ping = 0, currentlyWatching = [], currentTime = 0\<rparr>"
    if "connection s a rnd = Some t" for s a t
    using that by (auto simp: connection_def update_conv' split: option.splits)
  from one two three changeUsername_present show ?thesis
    by blast
qed

lemma lobby_users:
  "map_of (users lobby) alice =
     Some \<lparr>user_id = alice, name = ''Awesome Giraffe'', ping = 0, currentlyWatching = [],
           currentTime = 0\<rparr>"
  "map_of (users lobby) bob =
     Some \<lparr>user_id = bob, name = ''Cool Panda'', ping = 0, currentlyWatching = [], currentTime = 0\<rparr>"
  "getRandomUsername (users lobby) draws = Some ''Great Lion''"
  by (simp_all add: lobby_def run_def model_defs username_loop.simps)

theorem C9_witness:
  "getRandomUsername (users lobby) draws = Some ''Great Lion'' \<and>
   (\<exists>k. ''Great Lion'' = username_at draws k) \<and>
   map_of (users lobby) alice =
     Some \<lparr>user_id = alice, name = ''Awesome Giraffe'', ping = 0, currentlyWatching = [],
           currentTime = 0\<rparr> \<and>
   (\<exists>t out. changeUsername lobby bob ''Awesome Giraffe'' = Inr (t, out) \<and>
      map_of (users t) bob =
        Some \<lparr>user_id = bob, name = ''Awesome Giraffe'', ping = 0, currentlyWatching = [],
              currentTime = 0\<rparr> \<and>
      map_of (users t) alice = map_of (users lobby) alice \<and>
      last out = Callback bob (ErrorOnly None))"
proof -
  note c9 = C9_usernames [of "users lobby" draws]
  have ne: "alice \<noteq> bob" by (simp add: alice_def bob_def)
  from c9 lobby_users(3)
  have "\<exists>k. ''Great Lion'' = username_at draws k"
    by blast
  moreover from c9 [THEN conjunct2, THEN conjunct2, THEN conjunct2, rule_format,
      OF lobby_users(2), of "''Awesome Giraffe''"]
  obtain t out where "changeUsername lobby bob ''Awesome Giraffe'' = Inr (t, out)"
    and "map_of (users t) bob =
      Some (\<lparr>user_id = bob, name = ''Cool Panda'', ping = 0, currentlyWatching = [],
              currentTime = 0\<rparr>\<lparr>name := ''Awesome Giraffe''\<rparr>)"
    and "\<forall>b. b \<noteq> bob \<longrightarrow> map_of (users t) b = map_of (users lobby) b"
    and "last out = Callback bob (ErrorOnly None)"
    by blast
  ultimately show ?thesis
    using lobby_users ne by auto
qed

section \<open>A full house\<close>

lemma exec_append:
  "exec s (es @ fs) = (case exec s es of None \<Rightarrow> None | Some t \<Rightarrow> exec t fs)"
  by (induction es arbitrary: s) (auto split: option.splits sum.splits)

lemma update_fresh: "k \<notin> fst ` set al \<Longrightarrow> AList.update k v al = al @ [(k, v)]"
  by (induction al) auto

lemma space_split:
  assumes "CHR '' '' \<notin> set p" "CHR '' '' \<notin> set q" "p @ CHR '' '' # x = q @ CHR '' '' # y"
  shows "p = q \<and> x = y"
  using assms
proof (induction p arbitrary: q)
  case Nil
  then show ?case by (cases q) auto
next
  case (Cons c p)
  then show ?case by (cases q) auto
qed

lemma prefixes_props:
  "length defaultUsernamePrefixes = 14" "distinct defaultUsernamePrefixes"
  "\<forall>p \<in> set defaultUsernamePrefixes. CHR '' '' \<notin> set p"
  by (simp_all add: defaultUsernamePrefixes_def)

lemma suffixes_props:
  "length defaultUsernameSuffixes = 21" "distinct defaultUsernameSuffixes"
  by (simp_all add: defaultUsernameSuffixes_def)

lemma letters_props: "length upperCaseLetters = 26" "distinct upperCaseLetters"
  by (simp_all add: upperCaseLetters_def)

lemma username_at_eq:
  assumes "fst (r i) < 14" "snd (r i) < 21" "fst (r' j) < 14" "snd (r' j) < 21"
    and "username_at r i = username_at r' j"
  shows "r i = r' j"
proof -
  let ?P = defaultUsernamePrefixes and ?S = defaultUsernameSuffixes
  have "?P ! fst (r i) \<in> set ?P" "?P ! fst (r' j) \<in> set ?P"
    using assms(1,3) by (simp_all add: prefixes_props)
  then have "CHR '' '' \<notin> set (?P ! fst (r i))" "CHR '' '' \<notin> set (?P ! fst (r' j))"
    using prefixes_props(3) by blast+
  moreover have "?P ! fst (r i) @ CHR '' '' # ?S ! snd (r i) = ?P ! fst (r' j) @ CHR '' '' # ?S ! snd (r' j)"
    using assms by (simp add: username_at_def pick_def prefixes_props suffixes_props)
  ultimately have "?P ! fst (r i) = ?P ! fst (r' j) \<and> ?S ! snd (r i) = ?S ! snd (r' j)"
    by (rule space_split)
  then have "fst (r i) = fst (r' j)" "snd (r i) = snd (r' j)"
    using assms(1-4)
    by (simp_all add: nth_eq_iff_index_eq prefixes_props suffixes_props)
  then show ?thesis
    by (simp add: prod_eq_iff)
qed

lemma crowd_name_inj:
  assumes "i < 294" "j < 294" "crowd_name i = crowd_name j"
  shows "i = j"
proof -
  have "i div 21 < 14" "j div 21 < 14" "i mod 21 < 21" "j mod 21 < 21"
    using assms(1,2) by auto
  then have bounds: "fst (crowd_rnd i 0) < 14" "snd (crowd_rnd i 0) < 21"
      "fst (crowd_rnd j 0) < 14" "snd (crowd_rnd j 0) < 21"
    by (simp_all add: crowd_rnd_def)
  from assms(3) have "username_at (crowd_rnd i) 0 = username_at (crowd_rnd j) 0"
    by (simp add: crowd_name_def)
  with bounds have "crowd_rnd i 0 = crowd_rnd j 0"
    by (rule username_at_eq)
  then have "i div 21 = j div 21" "i mod 21 = j mod 21"
    by (simp_all add: crowd_rnd_def)
  then show ?thesis
    by (metis div_mult_mod_eq)
qed

lemma crowd_sid_inj:
  assumes "i < 294" "j < 294" "crowd_sid i = crowd_sid j"
  shows "i = j"
proof -
  have b: "i div 21 < 26" "j div 21 < 26" "i mod 21 < 26" "j mod 21 < 26"
    using assms(1,2) by auto
  from assms(3) have "upperCaseLetters ! (i div 21) = upperCaseLetters ! (j div 21)"
    and "upperCaseLetters ! (i mod 21) = upperCaseLetters ! (j mod 21)"
    by (simp_all add: crowd_sid_def)
  then have "i div 21 = j div 21" "i mod 21 = j mod 21"
    using b by (simp_all add: nth_eq_iff_index_eq letters_props)
  then show ?thesis
    by (metis div_mult_mod_eq)
qed

lemma crowd_sid_props: "length (crowd_sid i) = 20" "crowd_sid i \<noteq> carol"
  by (simp_all add: crowd_sid_def carol_def)

lemma crowd_events_Suc:
  "crowd_events (Suc n) = crowd_events n @ [Connection (crowd_sid n) (crowd_rnd n)]"
  by (simp add: crowd_events_def)

lemma crowd_run:
  assumes "n \<le> 294"
  shows "exec init (crowd_events n) = Some (run (crowd_events n)) \<and>
         map (\<lambda>user. name (snd user)) (users (run (crowd_events n))) = map crowd_name [0..<n] \<and>
         (\<forall>a. adapter_sids (run (crowd_events n)) a \<noteq> None \<longleftrightarrow> a \<in> crowd_sid ` {0..<n})"
  using assms
proof (induction n)
  case 0
  show ?case
    by (simp add: crowd_events_def run_def init_def)
next
  case (Suc n)
  let ?s = "run (crowd_events n)"
  let ?a = "crowd_sid n"
  let ?names = "map (\<lambda>user. name (snd user)) (users ?s)"
  let ?rec = "\<lparr>user_id = ?a, name = crowd_name n, ping = 0, currentlyWatching = [],
               currentTime = 0\<rparr>"
  let ?t = "(socket_join ?s ?a ?a)\<lparr>users := AList.update ?a ?rec (users ?s),
              pingIntervals := (pingIntervals ?s)(?a \<mapsto> ())\<rparr>"
  from Suc have n: "n < 294" and ex: "exec init (crowd_events n) = Some ?s"
    and names: "?names = map crowd_name [0..<n]"
    and sids: "\<forall>a. adapter_sids ?s a \<noteq> None \<longleftrightarrow> a \<in> crowd_sid ` {0..<n}"
    by simp_all
  have "reachable ?s" using ex by (auto simp: reachable_def)
  then have inv: "invariant ?s" by (rule reachable_invariant)
  have fresh: "adapter_sids ?s ?a = None"
  proof (rule ccontr)
    assume "adapter_sids ?s ?a \<noteq> None"
    with sids obtain i where "i < n" "crowd_sid i = crowd_sid n" by auto
    with n crowd_sid_inj [of i n] show False by simp
  qed
  with inv have nouser: "map_of (users ?s) ?a = None"
    by (simp add: invariant_def registry_ok_def)
  then have nokey: "?a \<notin> fst ` set (users ?s)"
    by (simp add: map_of_eq_None_iff)
  have "crowd_name n \<notin> set ?names"
  proof
    assume "crowd_name n \<in> set ?names"
    with names obtain i where "i < n" "crowd_name i = crowd_name n" by auto
    with n crowd_name_inj [of i n] show False by simp
  qed
  then have "getRandomUsername (users ?s) (crowd_rnd n) = Some (crowd_name n)"
    unfolding getRandomUsername_def
    by (subst username_loop_unfold) (simp add: crowd_name_def)
  then have st: "step ?s (Connection ?a (crowd_rnd n)) = Some (Inr (?t, []))"
    by (simp add: connection_def)
  have ad: "admissible ?s (Connection ?a (crowd_rnd n))"
    using fresh nouser by (simp add: crowd_sid_props)
  have ex': "exec init (crowd_events (Suc n)) = Some ?t"
    using ex st ad by (simp add: crowd_events_Suc exec_append)
  then have run': "run (crowd_events (Suc n)) = ?t"
    by (simp add: run_def)
  have "map (\<lambda>user. name (snd user)) (users ?t) = map crowd_name [0..<Suc n]"
    using names by (simp add: update_fresh [OF nokey])
  moreover have "\<forall>a. adapter_sids ?t a \<noteq> None \<longleftrightarrow> a \<in> crowd_sid ` {0..<Suc n}"
  proof
    fix a
    have "adapter_sids ?t a \<noteq> None \<longleftrightarrow> a = ?a \<or> adapter_sids ?s a \<noteq> None"
      using sids_None_join [of ?s ?a ?a a] by auto
    also have "\<dots> \<longleftrightarrow> a \<in> crowd_sid ` {0..<Suc n}"
      using sids by (auto simp: less_Suc_eq)
    finally show "adapter_sids ?t a \<noteq> None \<longleftrightarrow> a \<in> crowd_sid ` {0..<Suc n}" .
  qed
  ultimately show ?case
    using ex' unfolding run' by simp
qed

lemma crowded_names: "username_at rnd k \<in> set (map (\<lambda>user. name (snd user)) (users crowded))"
  if "fst (rnd k) < 14" "snd (rnd k) < 21"
proof -
  let ?i = "21 * fst (rnd k) + snd (rnd k)"
  have i: "?i < 294" using that by simp
  have "?i div 21 = fst (rnd k)" "?i mod 21 = snd (rnd k)"
    using that by simp_all
  then have "crowd_name ?i = username_at rnd k"
    by (simp add: crowd_name_def username_at_def crowd_rnd_def)
  moreover have "crowd_name ?i \<in> set (map crowd_name [0..<294])"
    using i by simp
  ultimately show ?thesis
    using crowd_run [of 294] by (simp add: crowded_def)
qed

lemma crowded_loop:
  assumes "\<forall>k. fst (rnd k) < 14 \<and> snd (rnd k) < 21"
  shows "getRandomUsername (users crowded) rnd = None"
proof (rule ccontr)
  assume "getRandomUsername (users crowded) rnd \<noteq> None"
  then obtain y where "username_loop (map (\<lambda>user. name (snd user)) (users crowded)) rnd 0 = Some y"
    by (auto simp: getRandomUsername_def)
  from username_loop_sound [OF this] obtain j
    where "username_at rnd j \<notin> set (map (\<lambda>user. name (snd user)) (users crowded))"
    by auto
  with crowded_names [of rnd j] assms show False
    by blast
qed

lemma crowded_reachable: "reachable crowded"
  using crowd_run [of 294] by (auto simp: reachable_def crowded_def)

text \<open>
  Claim C9 as stated fails on termination. After 294 connections that were given the 294
  names the two word lists can make, every name a round can make is held by a record: the
  loop of register has no name to return and Carol's connect never gets past it.
\<close>

theorem C9_counterexample:
  "reachable crowded \<and> length (users crowded) = 294 \<and>
   admissible crowded (Connection carol draws) \<and>
   getRandomUsername (users crowded) draws = None \<and>
   step crowded (Connection carol draws) = None"
proof -
  have inv: "invariant crowded"
    using crowded_reachable by (rule reachable_invariant)
  have "length (map (\<lambda>user. name (snd user)) (users crowded)) = 294"
    using crowd_run [of 294] by (simp add: crowded_def)
  then have len: "length (users crowded) = 294" by simp
  have "carol \<notin> crowd_sid ` {0..<294}"
  proof
    assume "carol \<in> crowd_sid ` {0..<294}"
    then obtain i where "carol = crowd_sid i" by auto
    with crowd_sid_props(2) [of i] show False by simp
  qed
  moreover have "adapter_sids crowded carol \<noteq> None \<longleftrightarrow> carol \<in> crowd_sid ` {0..<294}"
    using crowd_run [of 294] by (simp add: crowded_def)
  ultimately have "adapter_sids crowded carol = None"
    by blast
  moreover from this inv have "map_of (users crowded) carol = None"
    by (simp add: invariant_def registry_ok_def)
  ultimately have ad: "admissible crowded (Connection carol draws)"
    by (simp add: carol_def)
  have loop: "getRandomUsername (users crowded) draws = None"
    by (rule crowded_loop) (simp add: draws_def)
  then have "step crowded (Connection carol draws) = None"
    by (simp add: connection_def)
  with crowded_reachable len ad loop show ?thesis
    by simp
qed

section \<open>Counting presence broadcasts\<close>

lemma broadcast_count_simps [simp]:
  "broadcast_count r [] = 0"
  "broadcast_count r (xs @ ys) = broadcast_count r xs + broadcast_count r ys"
  "broadcast_count r (Callback b v # xs) = broadcast_count r xs"
  "broadcast_count r (presence_broadcast t q # xs) = (if q = r then 1 else 0) + broadcast_count r xs"
  by (simp_all add: broadcast_count_def broadcast_rooms_def List.map_filter_def
        presence_broadcast_def)

lemma broadcast_count_vacated:
  "broadcast_count r (vacated_broadcast s a) =
     (if getCurrentRoom s a = Some r \<and> removeAll a (members s r) \<noteq> [] then 1 else 0)"
  by (simp add: vacated_broadcast_def broadcast_count_def broadcast_rooms_def
        List.map_filter_def split: option.splits)

lemma in_room_iff:
  assumes "invariant s" "adapter_sids s a \<noteq> None" "r \<noteq> a"
  shows "a \<in> set (members s r) \<longleftrightarrow> getCurrentRoom s a = Some r"
proof -
  from assms(1) have sh: "shape s" and li: "linked s" by (simp_all add: invariant_def)
  have "a \<in> set (members s r) \<longleftrightarrow> r \<in> set (socket_rooms s a)"
    using li by (simp add: linked_def)
  also have "\<dots> \<longleftrightarrow> getCurrentRoom s a = Some r"
    using shape_D [OF sh, of a] assms(3) by (auto simp: getCurrentRoom_def)
  finally show ?thesis .
qed

lemma leave_broadcast_once:
  assumes "invariant s" "adapter_sids s a \<noteq> None" "r \<noteq> a"
    and "members t r = removeAll a (members s r)"
    and "broadcast_count r out = broadcast_count r (vacated_broadcast s a)"
  shows "affected s t r \<longrightarrow> broadcast_count r out = 1"
proof
  assume af: "affected s t r"
  then have "set (removeAll a (members s r)) \<noteq> set (members s r)"
    and ne: "removeAll a (members s r) \<noteq> []"
    by (simp_all add: affected_def assms(4))
  then have "a \<in> set (members s r)" by auto
  then have "getCurrentRoom s a = Some r"
    using in_room_iff [OF assms(1-3)] by simp
  with ne show "broadcast_count r out = 1"
    by (simp add: assms(5) broadcast_count_vacated)
qed

lemma move_broadcast_once:
  assumes "invariant s" "adapter_sids s a \<noteq> None" "r \<noteq> a"
    and "members t r = (if r = q then removeAll a (members s r) @ [a] else removeAll a (members s r))"
    and "broadcast_count r out = broadcast_count r (vacated_broadcast s a) + (if q = r then 1 else 0)"
  shows "affected s t r \<longrightarrow> broadcast_count r out = 1"
proof (cases "r = q")
  case True
  show ?thesis
  proof
    assume af: "affected s t r"
    from assms(4) True have "members t r = removeAll a (members s r) @ [a]"
      by simp
    then have "set (members t r) = insert a (set (members s r) - {a})"
      by auto
    with af have "insert a (set (members s r) - {a}) \<noteq> set (members s r)"
      by (simp add: affected_def)
    then have "a \<notin> set (members s r)" by auto
    then have "getCurrentRoom s a \<noteq> Some r"
      using in_room_iff [OF assms(1-3)] by simp
    then have "broadcast_count r (vacated_broadcast s a) = 0"
      by (simp add: broadcast_count_vacated)
    moreover from assms(5) True
    have "broadcast_count r out = broadcast_count r (vacated_broadcast s a) + 1"
      by simp
    ultimately show "broadcast_count r out = 1"
      by simp
  qed
next
  case False
  then have "members t r = removeAll a (members s r)"
    and "broadcast_count r out = broadcast_count r (vacated_broadcast s a)"
    using assms(4,5) by auto
  with assms(1-3) show ?thesis
    by (rule leave_broadcast_once)
qed

lemma members_after_move:
  assumes "invariant s" "adapter_sids s a \<noteq> None" "r \<noteq> a"
  shows "members (socket_join (fst (disconnecting s a)) a q) r =
           (if r = q then removeAll a (members s r) @ [a] else removeAll a (members s r))"
proof -
  have m: "members (fst (disconnecting s a)) r = removeAll a (members s r)"
    using assms by (rule members_after_leave_block)
  show ?thesis
  proof (cases "r = q")
    case True
    with m show ?thesis
      by (simp add: members_join set_add_def)
  next
    case False
    with m show ?thesis
      by (simp add: members_join)
  qed
qed

lemma broadcast_once_create:
  assumes "invariant s" "adapter_sids s a \<noteq> None" "r \<noteq> a"
  shows "broadcast_once s (CreateRoom a uid) r"
proof -
  let ?t = "socket_join (fst (disconnecting s a)) a (toUpperCase uid)"
  let ?out = "snd (disconnecting s a) @ emitUserList ?t (toUpperCase uid)
                @ [Callback a (ErrorRoomID None (Some (toUpperCase uid)))]"
  have st: "step s (CreateRoom a uid) = Some (Inr (?t, ?out))"
    by (simp add: createRoom_alt split_def Let_def)
  have "invariant (fst (disconnecting s a))"
    using assms(1) by (rule invariant_disconnecting(1))
  then have rk: "rooms_ok ?t"
    by (simp add: invariant_def rooms_ok_join)
  have "a \<in> set (members ?t (toUpperCase uid))"
    by (simp add: members_join set_set_add)
  then have "adapter_rooms ?t (toUpperCase uid) \<noteq> None"
    by (cases "adapter_rooms ?t (toUpperCase uid)") (auto simp: members_def)
  then have e: "emitUserList ?t (toUpperCase uid) = [presence_broadcast ?t (toUpperCase uid)]"
    by (auto simp: emitUserList_def emitTo_def presence_broadcast_def members_def)
  have "broadcast_count r ?out =
          broadcast_count r (vacated_broadcast s a) + (if toUpperCase uid = r then 1 else 0)"
    by (simp add: e disconnecting_eq(2) [OF assms(1)])
  with assms members_after_move [OF assms, of "toUpperCase uid"]
  have "affected s ?t r \<longrightarrow> broadcast_count r ?out = 1"
    by (rule move_broadcast_once)
  then show ?thesis
    unfolding broadcast_once_def st by simp
qed

lemma broadcast_once_join:
  assumes "invariant s" "adapter_sids s a \<noteq> None" "r \<noteq> a"
  shows "broadcast_once s (JoinRoom a q) r"
proof (cases "adapter_rooms s q = None")
  case True
  then show ?thesis
    by (simp add: broadcast_once_def joinRoom_missing affected_def)
next
  case False
  let ?t = "socket_join (fst (disconnecting s a)) a q"
  let ?out = "snd (disconnecting s a) @ emitUserList ?t q @ [Callback a (ErrorRoomID None (Some q))]"
  have st: "step s (JoinRoom a q) = Some (Inr (?t, ?out))"
    using False by (simp add: joinRoom_alt split_def Let_def)
  have "a \<in> set (members ?t q)"
    by (simp add: members_join set_set_add)
  then have "adapter_rooms ?t q \<noteq> None"
    by (cases "adapter_rooms ?t q") (auto simp: members_def)
  then have e: "emitUserList ?t q = [presence_broadcast ?t q]"
    by (auto simp: emitUserList_def emitTo_def presence_broadcast_def members_def)
  have "broadcast_count r ?out = broadcast_count r (vacated_broadcast s a) + (if q = r then 1 else 0)"
    by (simp add: e disconnecting_eq(2) [OF assms(1)])
  with assms members_after_move [OF assms, of q]
  have "affected s ?t r \<longrightarrow> broadcast_count r ?out = 1"
    by (rule move_broadcast_once)
  then show ?thesis
    unfolding broadcast_once_def st by simp
qed

lemma broadcast_once_leave:
  assumes "invariant s" "adapter_sids s a \<noteq> None" "r \<noteq> a"
  shows "broadcast_once s (LeaveRoom a) r"
proof (cases "getCurrentRoom s a")
  case None
  then show ?thesis
    by (simp add: broadcast_once_def leaveRoom_None affected_def)
next
  case (Some c)
  let ?t = "socket_leave s a c"
  let ?out = "vacated_broadcast s a @ [Callback a (ErrorOnly None)]"
  have st: "step s (LeaveRoom a) = Some (Inr (?t, ?out))"
    by (simp add: leaveRoom_Some(1) [OF assms(1) Some])
  have "fst (disconnecting s a) = ?t"
    by (simp add: disconnecting_eq(1) [OF assms(1)] Some)
  then have "members ?t r = removeAll a (members s r)"
    using members_after_leave_block [OF assms] by simp
  moreover have "broadcast_count r ?out = broadcast_count r (vacated_broadcast s a)"
    by simp
  ultimately have "affected s ?t r \<longrightarrow> broadcast_count r ?out = 1"
    using assms by (intro leave_broadcast_once)
  then show ?thesis
    unfolding broadcast_once_def st by simp
qed

lemma broadcast_once_disconnect:
  assumes "invariant s" "adapter_sids s a \<noteq> None" "r \<noteq> a"
  shows "broadcast_once s (Disconnect a) r"
proof -
  let ?s1 = "fst (disconnecting s a)"
  let ?t = "disconnect (leaveAll ?s1 a) a"
  let ?out = "snd (disconnecting s a)"
  have st: "step s (Disconnect a) = Some (Inr (?t, ?out))"
    by (simp add: split_def Let_def)
  have "members ?t = members (leaveAll ?s1 a)"
    by (rule adapter_frame(2)) (simp_all add: disconnect_def Let_def)
  moreover have "socket_rooms ?s1 a = [a]"
    using assms(1,2) by (rule after_leave_block(1))
  ultimately have "members ?t r = members ?s1 r"
    using assms(3) by (simp add: members_leaveAll)
  then have "members ?t r = removeAll a (members s r)"
    using members_after_leave_block [OF assms] by simp
  moreover have "broadcast_count r ?out = broadcast_count r (vacated_broadcast s a)"
    by (simp add: disconnecting_eq(2) [OF assms(1)])
  ultimately have "affected s ?t r \<longrightarrow> broadcast_count r ?out = 1"
    using assms by (intro leave_broadcast_once)
  then show ?thesis
    unfolding broadcast_once_def st by simp
qed

lemma broadcast_once_membership:
  assumes "invariant s" "adapter_sids s a \<noteq> None" "r \<noteq> a" "membership_event e = Some a"
  shows "broadcast_once s e r"
  using assms(4) broadcast_once_create [OF assms(1-3)] broadcast_once_join [OF assms(1-3)]
    broadcast_once_leave [OF assms(1-3)] broadcast_once_disconnect [OF assms(1-3)]
  by (cases e) simp_all

section \<open>Exclusive membership and presence broadcasts\<close>

text \<open>
  Claim C1, as amended. In every reachable state the rooms of a live connection \<open>a\<close> are
  its private room, named by its connection identity, followed by at most one room code.
  create-room and a successful join-room first take \<open>a\<close> out of its prior room, whose
  remaining members are sent their presence list without \<open>a\<close>, and then associate \<open>a\<close>
  with the new code, so that the new code is the only one \<open>a\<close> has. For each
  membership event of \<open>a\<close> (create, join, leave, disconnect) and each room other than
  the private room of \<open>a\<close>: if the event changes the set of members of the room and the
  room still has members, the event sends that room exactly one presence broadcast.
\<close>

theorem C1_exclusive_membership:
  assumes "reachable s" "adapter_sids s a \<noteq> None"
  shows "(socket_rooms s a = [a] \<or> (\<exists>c. c \<noteq> a \<and> socket_rooms s a = [a, c])) \<and>
         (\<forall>uid. length uid = 10 \<longrightarrow>
            (\<exists>t. createRoom s a uid =
                    (t, vacated_broadcast s a
                        @ [presence_broadcast t (toUpperCase uid),
                           Callback a (ErrorRoomID None (Some (toUpperCase uid)))]) \<and>
                  socket_rooms t a = [a, toUpperCase uid] \<and>
                  (\<forall>c. getCurrentRoom s a = Some c \<longrightarrow> c \<noteq> toUpperCase uid \<longrightarrow>
                       a \<notin> set (members t c)))) \<and>
         (\<forall>q. join_succeeds s a q \<longrightarrow>
            (\<exists>t. joinRoom s a q =
                    (t, vacated_broadcast s a
                        @ [presence_broadcast t q, Callback a (ErrorRoomID None (Some q))]) \<and>
                  socket_rooms t a = (if q = a then [a] else [a, q]) \<and>
                  (\<forall>c. getCurrentRoom s a = Some c \<longrightarrow> c \<noteq> q \<longrightarrow> a \<notin> set (members t c)))) \<and>
         (\<forall>e r. membership_event e = Some a \<longrightarrow> r \<noteq> a \<longrightarrow> broadcast_once s e r)"
proof -
  have inv: "invariant s" using assms(1) by (rule reachable_invariant)
  then have sh: "shape s" and lv: "live_ok s" by (simp_all add: invariant_def)
  from lv assms(2) have "socket_rooms s a \<noteq> []" by (simp add: live_ok_def)
  with shape_D [OF sh, of a]
  have one: "socket_rooms s a = [a] \<or> (\<exists>c. c \<noteq> a \<and> socket_rooms s a = [a, c])"
    by auto
  have two: "\<exists>t. createRoom s a uid =
                    (t, vacated_broadcast s a
                        @ [presence_broadcast t (toUpperCase uid),
                           Callback a (ErrorRoomID None (Some (toUpperCase uid)))]) \<and>
                  socket_rooms t a = [a, toUpperCase uid] \<and>
                  (\<forall>c. getCurrentRoom s a = Some c \<longrightarrow> c \<noteq> toUpperCase uid \<longrightarrow>
                       a \<notin> set (members t c))"
    if "length uid = 10" for uid
    using createRoom_result [OF inv assms(2) that] by blast
  have three: "\<exists>t. joinRoom s a q =
                    (t, vacated_broadcast s a
                        @ [presence_broadcast t q, Callback a (ErrorRoomID None (Some q))]) \<and>
                  socket_rooms t a = (if q = a then [a] else [a, q]) \<and>
                  (\<forall>c. getCurrentRoom s a = Some c \<longrightarrow> c \<noteq> q \<longrightarrow> a \<notin> set (members t c))"
    if j: "join_succeeds s a q" for q
  proof -
    have ex: "adapter_rooms s q \<noteq> None"
      using j by (cases "adapter_rooms s q = None") (simp_all add: join_succeeds_def joinRoom_missing)
    from joinRoom_present [OF inv assms(2) ex] show ?thesis
      by blast
  qed
  have four: "broadcast_once s e r" if "membership_event e = Some a" "r \<noteq> a" for e r
    using inv assms(2) that(2,1) by (rule broadcast_once_membership)
  from one two three four show ?thesis
    by blast
qed

lemma lobby_join:
  "join_succeeds lobby bob ''ABCDEFGHIJ''"
  "members (fst (joinRoom lobby bob ''ABCDEFGHIJ'')) ''ABCDEFGHIJ'' = [alice, bob]"
  "step lobby (JoinRoom bob ''ABCDEFGHIJ'') = Some (Inr (joinRoom lobby bob ''ABCDEFGHIJ''))"
  by (simp_all add: join_succeeds_def lobby_def run_def model_defs username_loop.simps)

theorem C1_witness:
  "reachable lobby \<and> adapter_sids lobby bob \<noteq> None \<and> socket_rooms lobby bob = [bob] \<and>
   join_succeeds lobby bob ''ABCDEFGHIJ'' \<and>
   membership_event (JoinRoom bob ''ABCDEFGHIJ'') = Some bob \<and> ''ABCDEFGHIJ'' \<noteq> bob \<and>
   socket_rooms (fst (joinRoom lobby bob ''ABCDEFGHIJ'')) bob = [bob, ''ABCDEFGHIJ''] \<and>
   affected lobby (fst (joinRoom lobby bob ''ABCDEFGHIJ'')) ''ABCDEFGHIJ'' \<and>
   broadcast_count ''ABCDEFGHIJ'' (snd (joinRoom lobby bob ''ABCDEFGHIJ'')) = 1"
proof -
  let ?j = "joinRoom lobby bob ''ABCDEFGHIJ''"
  have live: "adapter_sids lobby bob \<noteq> None"
    by (simp add: lobby_rooms)
  have ne: "''ABCDEFGHIJ'' \<noteq> bob" and ab: "alice \<noteq> bob"
    by (simp_all add: alice_def bob_def)
  note c1 = C1_exclusive_membership [OF lobby_reachable live]
  have af: "affected lobby (fst ?j) ''ABCDEFGHIJ''"
    using ab by (auto simp: affected_def lobby_join(2) lobby_members)
  from c1 ne have "broadcast_once lobby (JoinRoom bob ''ABCDEFGHIJ'') ''ABCDEFGHIJ''"
    by simp
  with af have cnt: "broadcast_count ''ABCDEFGHIJ'' (snd ?j) = 1"
    unfolding broadcast_once_def lobby_join(3) by (simp add: split_def)
  from c1 [THEN conjunct2, THEN conjunct2, THEN conjunct1, rule_format, OF lobby_join(1)] ne
  have "socket_rooms (fst ?j) bob = [bob, ''ABCDEFGHIJ'']"
    by auto
  moreover have "socket_rooms lobby bob = [bob]"
    using ab by (auto simp: lobby_rooms(3))
  ultimately show ?thesis
    using lobby_reachable live af cnt ne by (simp add: lobby_join(1))
qed

text \<open>
  Claim C1 as stated fails on the broadcast at disconnect. Bob has joined the private room of
  Alice, which is his current room. Alice disconnects: she has no current room, so her
  disconnecting handler sends nothing, and the transport then takes her out of her private
  room. The set of members of that room changes from Alice and Bob to Bob alone, and no
  presence broadcast is sent for it.
\<close>

theorem C1_counterexample:
  "admissible guest (Disconnect alice) \<and> membership_event (Disconnect alice) = Some alice \<and>
   getCurrentRoom guest bob = Some alice \<and> members guest alice = [alice, bob] \<and>
   (case step guest (Disconnect alice) of
      Some (Inr (t, out)) \<Rightarrow> members t alice = [bob] \<and> out = []
    | _ \<Rightarrow> False) \<and>
   \<not> broadcast_once guest (Disconnect alice) alice"
  by (simp add: guest_def run_def model_defs username_loop.simps broadcast_once_def affected_def
        broadcast_count_def broadcast_rooms_def List.map_filter_simps)

end
